theory Spec2Isabelle
  imports Complex_Main
begin

section \<open>JavaScript values and the built-ins the normalisation layer calls\<close>

text \<open>
  The dashboard's normalisation layer is four TypeScript functions: \<open>parseCSV\<close>
  (src/utils/dataParser.ts) and \<open>findCol\<close>, \<open>getVal\<close>, \<open>smartCompare\<close> (src/App.tsx).
  They are pure; each becomes a HOL function of the same name. The built-ins of the
  language they call (\<open>trim\<close>, \<open>toLowerCase\<close>, \<open>split\<close>, \<open>Number\<close>, \<open>isNaN\<close>,
  two regular expressions) are modelled first, from ECMAScript.

  A JavaScript string is a sequence of UTF-16 code units. The embedding covers the
  strings whose code units are all below 256: a \<^typ>\<open>char\<close> \<open>c\<close> stands for the
  code unit \<open>of_char c\<close> (so the characters are those of ISO-8859-1, ASCII among
  them). All operations below map such strings to such strings.
\<close>

subsection \<open>Characters\<close>

definition code :: "char \<Rightarrow> nat" where
  "code c = of_char c"

text \<open>The characters the source names in literals and regular expressions.\<close>

definition dquote :: char where "dquote = CHR 0x22"
definition comma :: char where "comma = CHR '',''"
definition dot :: char where "dot = CHR ''.''"
definition LF :: char where "LF = CHR 0x0A"
definition CR :: char where "CR = CHR 0x0D"

text \<open>
  White space as \<open>String.prototype.trim\<close>, the regular expression class \<open>\s\<close> and
  the numeric-string grammar understand it (WhiteSpace and LineTerminator): below 256
  these are TAB, LF, VT, FF, CR, SP and NBSP.
\<close>

definition is_space :: "char \<Rightarrow> bool" where
  "is_space c = (code c = 9 \<or> code c = 10 \<or> code c = 11 \<or> code c = 12 \<or> code c = 13
     \<or> code c = 32 \<or> code c = 160)"

text \<open>The class \<open>\d\<close>: the ten ASCII digits.\<close>

definition is_digit :: "char \<Rightarrow> bool" where
  "is_digit c = (48 \<le> code c \<and> code c \<le> 57)"

text \<open>
  \<open>toLowerCase\<close> on one code unit below 256: A to Z, and the upper-case letters of
  ISO-8859-1 (0xC0 to 0xDE without the multiplication sign 0xD7), move up by 32.
\<close>

definition lower_char :: "char \<Rightarrow> char" where
  "lower_char c =
     (if (65 \<le> code c \<and> code c \<le> 90) \<or> (192 \<le> code c \<and> code c \<le> 222 \<and> code c \<noteq> 215)
      then char_of (code c + 32) else c)"

definition toLowerCase :: "string \<Rightarrow> string" where
  "toLowerCase s = map lower_char s"

definition trim :: "string \<Rightarrow> string" where
  "trim s = rev (dropWhile is_space (rev (dropWhile is_space s)))"

subsection \<open>Numbers\<close>

text \<open>
  A Number is an IEEE-754 double: not-a-number, an infinity, or a finite value, kept
  here as the rational it is exactly. The two zeros are one value \<open>Fin 0\<close>: no
  operation of this program tells them apart (both are falsy, equal under \<open>===\<close>).
\<close>

datatype jsnum = NaN | PosInf | NegInf | Fin rat

fun negate :: "jsnum \<Rightarrow> jsnum" where
  "negate NaN = NaN"
| "negate PosInf = NegInf"
| "negate NegInf = PosInf"
| "negate (Fin q) = Fin (- q)"

fun isNaN :: "jsnum \<Rightarrow> bool" where
  "isNaN NaN = True"
| "isNaN _ = False"

text \<open>
  The Number value for a mathematical value (ECMAScript's RoundMVResult): the nearest
  double, ties to the even significand, infinite from \<open>2^1024 - 2^970\<close> on. A double
  is \<open>m * 2^e\<close> with \<open>m < 2^53\<close> and \<open>e \<ge> -1074\<close>. (ECMAScript lets an
  implementation round a literal of more than 20 significant digits less exactly;
  the engines in use round correctly, as here.)
\<close>

fun bitlen :: "nat \<Rightarrow> nat" where
  "bitlen n = (if n = 0 then 0 else Suc (bitlen (n div 2)))"

declare bitlen.simps [simp del]

text \<open>For \<open>q > 0\<close>, the \<open>l\<close> with \<open>2^l \<le> q < 2^(l+1)\<close>.\<close>

definition floor_log2 :: "rat \<Rightarrow> int" where
  "floor_log2 q =
     (let d = int (bitlen (nat (fst (quotient_of q)))) - int (bitlen (nat (snd (quotient_of q))))
      in if 2 powi d \<le> q then d else d - 1)"

definition round_half_even :: "rat \<Rightarrow> int" where
  "round_half_even y =
     (let f = \<lfloor>y\<rfloor>; r = y - of_int f
      in if r < 1 / 2 then f else if 1 / 2 < r then f + 1 else if even f then f else f + 1)"

definition round_pos :: "rat \<Rightarrow> jsnum" where
  "round_pos q =
     (let e = max (floor_log2 q - 52) (- 1074);
          v = of_int (round_half_even (q / 2 powi e)) * 2 powi e
      in if 2 ^ 1024 \<le> v then PosInf else Fin v)"

definition round_double :: "rat \<Rightarrow> jsnum" where
  "round_double q =
     (if q = 0 then Fin 0 else if 0 < q then round_pos q else negate (round_pos (- q)))"

text \<open>
  \<open>Number(s)\<close> for a string (ECMAScript's StringToNumber): white space around the
  literal is dropped; the empty string is 0; a literal is \<open>0x\<close>, \<open>0o\<close> or \<open>0b\<close>
  followed by digits of that radix (unsigned), or an optional sign followed by
  \<open>Infinity\<close> or by a decimal literal (digits with an optional fraction, or a
  fraction alone, then an optional exponent). Anything else is not-a-number.
\<close>

definition digit_val :: "char \<Rightarrow> nat" where
  "digit_val c =
     (if 48 \<le> code c \<and> code c \<le> 57 then code c - 48
      else if 97 \<le> code c \<and> code c \<le> 102 then code c - 87
      else code c - 55)"

definition is_radix_digit :: "nat \<Rightarrow> char \<Rightarrow> bool" where
  "is_radix_digit r c =
     (((48 \<le> code c \<and> code c \<le> 57) \<or> (97 \<le> code c \<and> code c \<le> 102) \<or> (65 \<le> code c \<and> code c \<le> 70))
      \<and> digit_val c < r)"

definition radix_val :: "nat \<Rightarrow> string \<Rightarrow> nat" where
  "radix_val r ds = foldl (\<lambda>n c. r * n + digit_val c) 0 ds"

definition non_decimal :: "string \<Rightarrow> nat option" where
  "non_decimal t =
     (case t of
        z # x # ds \<Rightarrow>
          (let r = (if x = CHR ''x'' \<or> x = CHR ''X'' then 16
                    else if x = CHR ''o'' \<or> x = CHR ''O'' then 8
                    else if x = CHR ''b'' \<or> x = CHR ''B'' then 2 else (0::nat))
           in if z = CHR ''0'' \<and> r \<noteq> 0 \<and> ds \<noteq> [] \<and> list_all (is_radix_digit r) ds
              then Some (radix_val r ds) else None)
      | _ \<Rightarrow> None)"

definition exponent_part :: "string \<Rightarrow> int option" where
  "exponent_part r =
     (case r of
        [] \<Rightarrow> Some 0
      | e # r1 \<Rightarrow>
          if e = CHR ''e'' \<or> e = CHR ''E'' then
            (let neg = (case r1 of s # _ \<Rightarrow> s = CHR ''-'' | [] \<Rightarrow> False);
                 ds = (case r1 of s # r2 \<Rightarrow> if s = CHR ''+'' \<or> s = CHR ''-'' then r2 else r1
                       | [] \<Rightarrow> [])
             in if ds \<noteq> [] \<and> list_all is_digit ds
                then Some (if neg then - int (radix_val 10 ds) else int (radix_val 10 ds))
                else None)
          else None)"

definition unsigned_decimal :: "string \<Rightarrow> jsnum" where
  "unsigned_decimal u =
     (if u = ''Infinity'' then PosInf
      else
        let ip = takeWhile is_digit u;
            r1 = dropWhile is_digit u;
            fp = (case r1 of c # r \<Rightarrow> if c = dot then takeWhile is_digit r else [] | [] \<Rightarrow> []);
            r2 = (case r1 of c # r \<Rightarrow> if c = dot then dropWhile is_digit r else r1 | [] \<Rightarrow> [])
        in if ip = [] \<and> fp = [] then NaN
           else case exponent_part r2 of
                  None \<Rightarrow> NaN
                | Some ex \<Rightarrow>
                    round_double (of_nat (radix_val 10 (ip @ fp)) * 10 powi (ex - int (length fp))))"

definition StringToNumber :: "string \<Rightarrow> jsnum" where
  "StringToNumber s =
     (let t = trim s
      in if t = [] then Fin 0
         else case non_decimal t of
                Some n \<Rightarrow> round_double (of_nat n)
              | None \<Rightarrow>
                  (case t of
                     c # u \<Rightarrow>
                       if c = CHR ''+'' then unsigned_decimal u
                       else if c = CHR ''-'' then negate (unsigned_decimal u)
                       else unsigned_decimal t
                   | [] \<Rightarrow> Fin 0))"

subsection \<open>Values\<close>

text \<open>
  The values that reach the four functions: a cell of a parsed row is a string or a
  number, and reading a column a row does not have gives \<open>undefined\<close>.
\<close>

datatype jsval = JUndefined | JStr string | JNum jsnum

text \<open>\<open>Number(v)\<close>.\<close>

fun Number :: "jsval \<Rightarrow> jsnum" where
  "Number JUndefined = NaN"
| "Number (JStr s) = StringToNumber s"
| "Number (JNum n) = n"

text \<open>Truthiness: \<open>undefined\<close>, the empty string, zero and not-a-number are falsy.\<close>

fun truthy :: "jsval \<Rightarrow> bool" where
  "truthy JUndefined = False"
| "truthy (JStr s) = (s \<noteq> [])"
| "truthy (JNum n) = (n \<noteq> NaN \<and> n \<noteq> Fin 0)"

section \<open>The CSV parser (src/utils/dataParser.ts)\<close>

text \<open>
  \<open>csvText.split(/\r?\n/)\<close>: the text is cut at every LF and at every CR that an LF
  follows; a CR alone stays in its line. The empty text is one empty line.
\<close>

fun split_lines :: "string \<Rightarrow> string list" where
  "split_lines [] = [[]]"
| "split_lines (c # cs) =
     (if c = LF then [] # split_lines cs
      else if c = CR \<and> cs \<noteq> [] \<and> hd cs = LF then [] # split_lines (tl cs)
      else (case split_lines cs of l # ls \<Rightarrow> (c # l) # ls | [] \<Rightarrow> [[c]]))"

text \<open>
  \<open>splitLine\<close>: the loop over the characters of a line, with its three variables
  \<open>result\<close>, \<open>cur\<close> and \<open>inQuotes\<close>; after the loop the last field is pushed.
\<close>

fun splitLine_loop :: "string list \<Rightarrow> string \<Rightarrow> bool \<Rightarrow> string \<Rightarrow> string list" where
  "splitLine_loop result cur inQuotes [] = result @ [trim cur]"
| "splitLine_loop result cur inQuotes (c # cs) =
     (if c = dquote then splitLine_loop result cur (\<not> inQuotes) cs
      else if c = comma \<and> \<not> inQuotes then splitLine_loop (result @ [trim cur]) [] inQuotes cs
      else splitLine_loop result (cur @ [c]) inQuotes cs)"

definition splitLine :: "string \<Rightarrow> string list" where
  "splitLine line = splitLine_loop [] [] False line"

text \<open>\<open>val.replace(/^"|"$/g, '')\<close>: a quote at the start goes, then a quote at the end.\<close>

definition strip_quotes :: "string \<Rightarrow> string" where
  "strip_quotes v =
     (let w = (case v of c # r \<Rightarrow> if c = dquote then r else v | [] \<Rightarrow> [])
      in if w \<noteq> [] \<and> last w = dquote then butlast w else w)"

text \<open>
  The body of \<open>headers.forEach\<close> for one field \<open>values[index] || ""\<close>: the quotes are
  stripped, and a non-empty value that is a number for \<open>isNaN\<close> is stored as
  \<open>Number(val)\<close>.
\<close>

definition coerce :: "string \<Rightarrow> jsval" where
  "coerce v =
     (let val = strip_quotes v
      in if val \<noteq> [] \<and> \<not> isNaN (StringToNumber val) then JNum (StringToNumber val)
         else JStr val)"

text \<open>\<open>values[index] || ""\<close>: a position the line does not have reads as the empty string.\<close>

definition value_at :: "string list \<Rightarrow> nat \<Rightarrow> string" where
  "value_at vs i = (if i < length vs then vs ! i else [])"

text \<open>
  A row is an object with string keys: the finite map of its own entries. The
  assignment \<open>row[header] = v\<close> on a row that began as \<open>{}\<close> makes \<open>v\<close> the row's own
  entry under \<open>header\<close>, for every name but one: for the name \<open>__proto__\<close> the
  assignment goes to the setter the object inherits, which ignores a string or a
  number, and the row gets no entry.
\<close>

type_synonym row = "string \<rightharpoonup> jsval"

definition assign :: "row \<Rightarrow> string \<Rightarrow> jsval \<Rightarrow> row" where
  "assign r header v = (if header = ''__proto__'' then r else r(header \<mapsto> v))"

text \<open>
  The body of \<open>lines.slice(1).map\<close>: \<open>forEach\<close> visits the headers with their
  indices, in order; a header that occurs twice is assigned twice.
\<close>

definition make_row :: "string list \<Rightarrow> string \<Rightarrow> row" where
  "make_row hdrs line =
     (let vs = splitLine line
      in fold (\<lambda>(index, header) r. assign r header (coerce (value_at vs index)))
           (enumerate 0 hdrs) Map.empty)"

text \<open>
  Modelled from the spec: the type \<open>DashboardData\<close> that \<open>parseCSV\<close> returns is
  declared in \<open>types.ts\<close>, which is not among the sources. It is the specification's
  ParsedTable: the ordered headers and the ordered records, the two fields that the
  \<open>return\<close> statements of \<open>parseCSV\<close> fill.
\<close>

record DashboardData =
  headers :: "string list"
  rows :: "row list"

definition parseCSV :: "string \<Rightarrow> DashboardData" where
  "parseCSV csvText =
     (let lines = filter (\<lambda>line. trim line \<noteq> []) (split_lines csvText)
      in if lines = [] then \<lparr>headers = [], rows = []\<rparr>
         else let hdrs = splitLine (hd lines)
              in \<lparr>headers = hdrs, rows = map (make_row hdrs) (tl lines)\<rparr>)"

section \<open>Column resolution and value extraction (src/App.tsx)\<close>

text \<open>\<open>findCol\<close>; \<open>undefined\<close> is \<open>None\<close>.\<close>

definition findCol :: "string list \<Rightarrow> string list \<Rightarrow> string option" where
  "findCol hdrs aliases =
     (if hdrs = [] then None
      else find (\<lambda>h. list_ex (\<lambda>a. toLowerCase a = trim (toLowerCase h)) aliases) hdrs)"

text \<open>
  \<open>getVal\<close>: \<open>!header\<close> holds for \<open>undefined\<close> and for the empty string;
  \<open>Number(row[header]) || 0\<close> is 0 when the number is not-a-number or zero.
\<close>

definition getVal :: "row \<Rightarrow> string option \<Rightarrow> jsnum" where
  "getVal r header =
     (case header of
        None \<Rightarrow> Fin 0
      | Some h \<Rightarrow>
          if h = [] \<or> r h = None \<or> r h = Some JUndefined then Fin 0
          else let n = Number (the (r h)) in if n = NaN \<or> n = Fin 0 then Fin 0 else n)"

definition getValByAliases :: "row \<Rightarrow> string list \<Rightarrow> string list \<Rightarrow> jsnum" where
  "getValByAliases r hdrs aliases = getVal r (findCol hdrs aliases)"

section \<open>The build/version comparator (src/App.tsx)\<close>

text \<open>
  \<open>String(a || '')\<close>. A falsy value gives the empty string and a string itself. The
  decimal text of a non-zero number (the shortest digits that read back as the same
  double) is floating-point printing and is not modelled: it is the parameter
  \<open>numToString\<close>, and what follows holds for every such function.
\<close>

definition String_or_empty :: "(jsnum \<Rightarrow> string) \<Rightarrow> jsval \<Rightarrow> string" where
  "String_or_empty numToString a =
     (if truthy a
      then (case a of JStr s \<Rightarrow> s | JNum n \<Rightarrow> numToString n | JUndefined \<Rightarrow> [])
      else [])"

text \<open>
  \<open>clean\<close>: the regular expression \<open>/^(rc|build|v|ver|version)[\s:.-]*/i\<close>. The
  alternatives are tried in the order written; the star that follows matches any
  number of separators, also none, so the first alternative that matches the start of
  the string (ignoring the case of its ASCII letters) is the one taken.
\<close>

definition prefix_words :: "string list" where
  "prefix_words = [''rc'', ''build'', ''v'', ''ver'', ''version'']"

definition is_sep :: "char \<Rightarrow> bool" where
  "is_sep c = (is_space c \<or> c = CHR '':'' \<or> c = dot \<or> c = CHR ''-'')"

definition matches_ci :: "string \<Rightarrow> string \<Rightarrow> bool" where
  "matches_ci w s = (length w \<le> length s \<and> toLowerCase (take (length w) s) = w)"

definition strip_prefix :: "string \<Rightarrow> string" where
  "strip_prefix s =
     (case find (\<lambda>w. matches_ci w s) prefix_words of
        None \<Rightarrow> s
      | Some w \<Rightarrow> dropWhile is_sep (drop (length w) s))"

definition clean :: "string \<Rightarrow> string" where
  "clean s = trim (strip_prefix s)"

text \<open>\<open>isVersion\<close>: \<open>/^[\d.]+$/\<close>.\<close>

definition isVersion :: "string \<Rightarrow> bool" where
  "isVersion s = (s \<noteq> [] \<and> list_all (\<lambda>c. is_digit c \<or> c = dot) s)"

text \<open>\<open>s.split('.')\<close>, for any separator character.\<close>

fun split_on :: "char \<Rightarrow> string \<Rightarrow> string list" where
  "split_on d [] = [[]]"
| "split_on d (c # cs) =
     (if c = d then [] # split_on d cs
      else (case split_on d cs of x # xs \<Rightarrow> (c # x) # xs | [] \<Rightarrow> [[c]]))"

text \<open>The loop \<open>while (xs.length > 0 && xs[xs.length - 1] === 0) xs.pop()\<close>.\<close>

function pop_zeros :: "jsnum list \<Rightarrow> jsnum list" where
  "pop_zeros xs = (if xs \<noteq> [] \<and> last xs = Fin 0 then pop_zeros (butlast xs) else xs)"
  by pat_completeness auto
termination
  by (relation "measure length") auto

declare pop_zeros.simps [simp del]

text \<open>\<open>===\<close> on two numbers: not-a-number equals nothing.\<close>

definition strict_eq :: "jsnum \<Rightarrow> jsnum \<Rightarrow> bool" where
  "strict_eq x y = (x \<noteq> NaN \<and> x = y)"

definition smartCompare :: "(jsnum \<Rightarrow> string) \<Rightarrow> jsval \<Rightarrow> jsval \<Rightarrow> bool" where
  "smartCompare numToString a b =
     (let sa = trim (String_or_empty numToString a);
          sb = trim (String_or_empty numToString b)
      in if sa = [] \<or> sb = [] then False
         else if sa = sb then True
         else if toLowerCase sa = toLowerCase sb then True
         else
           let ca = clean sa; cb = clean sb
           in if ca = cb then True
              else if toLowerCase ca = toLowerCase cb then True
              else if isVersion ca \<and> isVersion cb then
                (let splitA = pop_zeros (map StringToNumber (split_on dot ca));
                     splitB = pop_zeros (map StringToNumber (split_on dot cb))
                 in if length splitA \<noteq> length splitB then False
                    else list_all2 strict_eq splitA splitB)
              else False)"

section \<open>The specification's notions\<close>

text \<open>
  The definitions of this section follow the words of the specification, not the code;
  the theorems below compare the two.
\<close>

subsection \<open>Lines and fields\<close>

text \<open>A blank line is empty or consists of white space only.\<close>

definition blank :: "string \<Rightarrow> bool" where
  "blank l = list_all is_space l"

definition nonblank_lines :: "string \<Rightarrow> string list" where
  "nonblank_lines csvText = filter (\<lambda>l. \<not> blank l) (split_lines csvText)"

text \<open>
  The raw fields of a line: the line is cut at every comma that is outside quotes,
  a quote character switching between outside and inside. The text of a field is its
  raw text without the quote characters, trimmed. The number of fields is one more
  than the number of commas outside quotes.
\<close>

fun split_unquoted :: "bool \<Rightarrow> string \<Rightarrow> string list" where
  "split_unquoted q [] = [[]]"
| "split_unquoted q (c # cs) =
     (if c = comma \<and> \<not> q then [] # split_unquoted q cs
      else (case split_unquoted (if c = dquote then \<not> q else q) cs of
              x # xs \<Rightarrow> (c # x) # xs | [] \<Rightarrow> [[c]]))"

definition field_text :: "string \<Rightarrow> string" where
  "field_text raw = trim (filter (\<lambda>c. c \<noteq> dquote) raw)"

fun unquoted_commas :: "bool \<Rightarrow> string \<Rightarrow> nat" where
  "unquoted_commas q [] = 0"
| "unquoted_commas q (c # cs) =
     (if c = dquote then unquoted_commas (\<not> q) cs
      else if c = comma \<and> \<not> q then Suc (unquoted_commas q cs)
      else unquoted_commas q cs)"

text \<open>
  A cell is numeric if it is non-empty and parses fully as a number; a numeric cell is
  stored as that number and any other cell as the string it is.
\<close>

definition stored_cell :: "string \<Rightarrow> jsval" where
  "stored_cell v =
     (if v \<noteq> [] \<and> \<not> isNaN (StringToNumber v) then JNum (StringToNumber v) else JStr v)"

subsection \<open>Column resolution and value extraction\<close>

text \<open>
  Some alias equals the header under case-insensitive comparison after trimming the
  header; the aliases are taken as they are.
\<close>

definition alias_eq :: "string list \<Rightarrow> string \<Rightarrow> bool" where
  "alias_eq aliases h = list_ex (\<lambda>a. toLowerCase a = toLowerCase (trim h)) aliases"

text \<open>
  Value extraction as specified: 0 when the header is "not found" or the record has no
  defined entry for it, 0 when the cell does not coerce to a number, and the cell
  coerced to a number otherwise.
\<close>

definition getVal_spec :: "row \<Rightarrow> string option \<Rightarrow> jsnum" where
  "getVal_spec r header =
     (case header of
        None \<Rightarrow> Fin 0
      | Some h \<Rightarrow>
          (case r h of
             None \<Rightarrow> Fin 0
           | Some v \<Rightarrow>
               if v = JUndefined then Fin 0
               else if isNaN (Number v) then Fin 0 else Number v))"

subsection \<open>Version segments\<close>

text \<open>
  The integer of a segment: the number that its decimal digits denote, 0 for an empty
  segment.
\<close>

definition segment_integer :: "string \<Rightarrow> nat" where
  "segment_integer seg = radix_val 10 seg"

text \<open>Stripping the trailing segments of value zero, \<open>z\<close> being the zero.\<close>

definition strip_trailing :: "'a \<Rightarrow> 'a list \<Rightarrow> 'a list" where
  "strip_trailing z xs = rev (dropWhile (\<lambda>x. x = z) (rev xs))"

text \<open>
  Split each on the dot, convert every segment, strip the trailing zero segments; if
  the two sequences differ in length the result is false, otherwise they are compared
  elementwise. The conversion \<open>conv\<close> is a parameter.
\<close>

definition segments_equal :: "(string \<Rightarrow> 'a) \<Rightarrow> 'a \<Rightarrow> string \<Rightarrow> string \<Rightarrow> bool" where
  "segments_equal conv z ca cb =
     (let va = strip_trailing z (map conv (split_on dot ca));
          vb = strip_trailing z (map conv (split_on dot cb))
      in if length va \<noteq> length vb then False
         else list_all (\<lambda>i. va ! i = vb ! i) [0..<length va])"

text \<open>The comparison as specified: every segment is converted to an integer.\<close>

definition version_equal :: "string \<Rightarrow> string \<Rightarrow> bool" where
  "version_equal ca cb = segments_equal segment_integer 0 ca cb"

text \<open>
  The comparison with every segment converted to a Number instead: to the double
  nearest to its integer.
\<close>

definition segment_number :: "string \<Rightarrow> jsnum" where
  "segment_number seg = round_double (of_nat (segment_integer seg))"

definition version_equal_numbers :: "string \<Rightarrow> string \<Rightarrow> bool" where
  "version_equal_numbers ca cb = segments_equal segment_number (Fin 0) ca cb"

subsection \<open>Closed instances\<close>

text \<open>
  A number-to-text function for the closed instances below whose arguments are
  strings: it is never applied there.
\<close>

definition no_text :: "jsnum \<Rightarrow> string" where
  "no_text n = []"

section \<open>Facts about the built-ins\<close>

subsection \<open>Characters and trimming\<close>

lemma code_inject: "code c = code d \<Longrightarrow> c = d"
  by (simp add: code_def)

lemma code_lower_char:
  "code (lower_char c) =
     (if (65 \<le> code c \<and> code c \<le> 90) \<or> (192 \<le> code c \<and> code c \<le> 222 \<and> code c \<noteq> 215)
      then code c + 32 else code c)"
  by (auto simp: lower_char_def code_def)

lemma is_space_lower_char [simp]: "is_space (lower_char c) = is_space c"
  unfolding is_space_def code_lower_char by auto

lemma dquote_neq_comma [simp]: "dquote \<noteq> comma" "comma \<noteq> dquote"
  by (simp_all add: dquote_def comma_def)

lemma dropWhile_map_lower:
  "(\<And>c. P (lower_char c) = P c) \<Longrightarrow>
   dropWhile P (map lower_char s) = map lower_char (dropWhile P s)"
  by (induction s) auto

lemma toLowerCase_trim: "toLowerCase (trim s) = trim (toLowerCase s)"
  by (simp add: toLowerCase_def trim_def rev_map dropWhile_map_lower)

lemma trim_Nil_iff: "trim s = [] \<longleftrightarrow> list_all is_space s"
proof
  assume a: "trim s = []"
  have "dropWhile is_space s = []"
  proof (rule ccontr)
    assume n: "dropWhile is_space s \<noteq> []"
    then have "\<not> is_space (hd (dropWhile is_space s))" by (rule hd_dropWhile)
    moreover have "hd (dropWhile is_space s) \<in> set (dropWhile is_space s)"
      using n by (rule hd_in_set)
    ultimately show False using a by (auto simp: trim_def)
  qed
  then show "list_all is_space s" by (simp add: list_all_iff)
next
  assume "list_all is_space s"
  then show "trim s = []" by (auto simp: trim_def list_all_iff dest: set_dropWhileD)
qed

lemma trim_Nil [simp]: "trim [] = []"
  by (simp add: trim_def)

lemma set_trim_subset: "set (trim s) \<subseteq> set s"
  by (auto simp: trim_def dest!: set_dropWhileD)

lemma trim_id: "\<forall>c\<in>set s. \<not> is_space c \<Longrightarrow> trim s = s"
proof -
  assume a: "\<forall>c\<in>set s. \<not> is_space c"
  have *: "\<And>t. \<forall>c\<in>set t. \<not> is_space c \<Longrightarrow> dropWhile is_space t = t"
    by (metis dropWhile_eq_self_iff hd_in_set)
  have "dropWhile is_space s = s" using a by (rule *)
  moreover have "dropWhile is_space (rev s) = rev s" using a by (intro *) simp
  ultimately show ?thesis by (simp add: trim_def)
qed

lemma trim_trim [simp]: "trim (trim s) = trim s"
proof (cases "trim s = []")
  case True
  show ?thesis unfolding True by simp
next
  case False
  let ?d = "dropWhile is_space s"
  let ?r = "dropWhile is_space (rev ?d)"
  from False have r: "?r \<noteq> []" by (simp add: trim_def)
  then have d: "?d \<noteq> []" by (metis dropWhile.simps(1) rev.simps(1))
  have l: "\<not> is_space (hd ?r)" using r by (rule hd_dropWhile)
  have rr: "rev ?d = takeWhile is_space (rev ?d) @ ?r" by simp
  have "?d = rev ?r @ rev (takeWhile is_space (rev ?d))"
    by (metis rev_append rev_rev_ident rr)
  moreover have "rev ?r \<noteq> []" using r by simp
  ultimately have "hd (rev ?r) = hd ?d" by (metis hd_append2)
  moreover have "\<not> is_space (hd ?d)" using d by (rule hd_dropWhile)
  ultimately have h: "\<not> is_space (hd (rev ?r))" by simp
  have 1: "dropWhile is_space (rev ?r) = rev ?r"
    using h r by (cases "rev ?r") auto
  have 2: "dropWhile is_space ?r = ?r"
    using l r by (cases ?r) auto
  show ?thesis unfolding trim_def 1 rev_rev_ident 2 ..
qed

subsection \<open>Numbers of digit strings\<close>

lemma bitlen_le: "n < 2 ^ k \<Longrightarrow> bitlen n \<le> k"
proof (induction n arbitrary: k rule: bitlen.induct)
  case (1 n)
  show ?case
  proof (cases "n = 0")
    case True
    then show ?thesis by (simp add: bitlen.simps)
  next
    case False
    with "1.prems" obtain k' where k: "k = Suc k'" by (cases k) auto
    with "1.prems" have "n div 2 < 2 ^ k'" by auto
    with "1.IH" False have "bitlen (n div 2) \<le> k'" by blast
    with False k show ?thesis by (subst bitlen.simps) simp
  qed
qed

lemma round_half_even_of_int [simp]: "round_half_even (of_int m) = m"
  by (simp add: round_half_even_def)

lemma floor_log2_of_nat_le:
  assumes n: "n < 2 ^ 53"
  shows "floor_log2 (of_nat n) \<le> 52"
proof -
  have "(of_nat n :: rat) = of_int (int n)" by simp
  then have q: "quotient_of (of_nat n) = (int n, 1)"
    using quotient_of_int [of "int n"] by simp
  have b1: "bitlen (Suc 0) = Suc 0" by (simp add: bitlen.simps)
  have "bitlen n \<le> 53" using n by (rule bitlen_le)
  then show ?thesis
    by (auto simp: floor_log2_def q b1 Let_def)
qed

text \<open>Every natural number below \<open>2^53\<close> is a double: rounding leaves it as it is.\<close>

lemma round_double_of_nat:
  assumes n: "n < 2 ^ 53"
  shows "round_double (of_nat n) = Fin (of_nat n)"
proof (cases "n = 0")
  case True
  then show ?thesis by (simp add: round_double_def)
next
  case False
  define e where "e = max (floor_log2 (of_nat n) - 52) (- 1074)"
  have e: "e \<le> 0" "- 1074 \<le> e"
    using floor_log2_of_nat_le [OF n] by (auto simp: e_def)
  define k where "k = nat (- e)"
  have p: "(2::rat) powi e = 1 / 2 ^ k"
    using e by (auto simp: power_int_def k_def field_simps)
  have "(of_nat n :: rat) / 2 powi e = of_int (int n * 2 ^ k)"
    by (simp add: p)
  then have r: "round_half_even (of_nat n / 2 powi e) = int n * 2 ^ k"
    by (simp only: round_half_even_of_int)
  have v: "(of_int (int n * 2 ^ k) :: rat) * 2 powi e = of_nat n"
    by (simp add: p)
  have "(of_nat n :: rat) < 2 ^ 53" using n
    by (metis of_nat_less_iff of_nat_numeral of_nat_power)
  also have "\<dots> < 2 ^ 1024" by simp
  finally have lt: "\<not> (2::rat) ^ 1024 \<le> of_nat n" by simp
  have "round_pos (of_nat n) = Fin (of_nat n)"
    unfolding round_pos_def e_def [symmetric] Let_def r v using lt by simp
  with False show ?thesis by (simp add: round_double_def)
qed

lemma digit_not_space: "is_digit c \<Longrightarrow> \<not> is_space c"
  by (auto simp: is_digit_def is_space_def)

lemma digit_facts:
  assumes "is_digit c"
  shows "c \<noteq> CHR ''x''" "c \<noteq> CHR ''X''" "c \<noteq> CHR ''o''" "c \<noteq> CHR ''O''"
    "c \<noteq> CHR ''b''" "c \<noteq> CHR ''B''" "c \<noteq> CHR ''+''" "c \<noteq> CHR ''-''"
    "c \<noteq> CHR ''I''" "c \<noteq> dot"
  using assms by (auto simp: is_digit_def code_def dot_def)

text \<open>\<open>Number\<close> of a string of decimal digits is the number of the segment.\<close>

lemma StringToNumber_digits:
  assumes d: "list_all is_digit s"
  shows "StringToNumber s = segment_number s"
proof (cases s)
  case Nil
  then show ?thesis
    by (simp add: StringToNumber_def segment_number_def segment_integer_def radix_val_def
        round_double_def)
next
  case (Cons c u)
  from d have t: "trim s = s"
    by (intro trim_id) (auto simp: list_all_iff digit_not_space)
  from d Cons have c: "is_digit c" by simp
  have nd: "non_decimal s = None"
  proof (cases u)
    case Nil
    with Cons show ?thesis by (simp add: non_decimal_def)
  next
    case (Cons x ds)
    with d \<open>s = c # u\<close> have "is_digit x" by simp
    from digit_facts [OF this] Cons \<open>s = c # u\<close> show ?thesis
      by (simp add: non_decimal_def)
  qed
  have inf: "s \<noteq> ''Infinity''" using digit_facts(9) [OF c] Cons by auto
  have tw: "takeWhile is_digit s = s" "dropWhile is_digit s = []"
    using d by (auto simp: list_all_iff)
  have "unsigned_decimal s = round_double (of_nat (radix_val 10 s))"
  proof -
    from Cons have "s \<noteq> []" by simp
    with inf show ?thesis
      by (simp add: unsigned_decimal_def tw exponent_part_def Let_def)
  qed
  with t nd Cons digit_facts(7,8) [OF c] show ?thesis
    by (simp add: StringToNumber_def segment_number_def segment_integer_def)
qed

subsection \<open>Fields of a line\<close>

lemma split_unquoted_not_Nil [simp]: "split_unquoted q cs \<noteq> []"
  by (induction cs arbitrary: q) (auto split: list.splits)

lemma splitLine_loop_split:
  "splitLine_loop result cur q cs =
     result @ trim (cur @ filter (\<lambda>c. c \<noteq> dquote) (hd (split_unquoted q cs)))
            # map field_text (tl (split_unquoted q cs))"
proof (induction cs arbitrary: result cur q)
  case Nil
  show ?case by simp
next
  case (Cons c cs)
  obtain x xs where x: "split_unquoted (if c = dquote then \<not> q else q) cs = x # xs"
    by (cases "split_unquoted (if c = dquote then \<not> q else q) cs") auto
  show ?case
  proof (cases "c = dquote")
    case True
    with x Cons show ?thesis by simp
  next
    case nq: False
    show ?thesis
    proof (cases "c = comma \<and> \<not> q")
      case True
      have "split_unquoted False cs = hd (split_unquoted False cs) # tl (split_unquoted False cs)"
        by simp
      then have "map field_text (split_unquoted False cs)
          = trim (filter (\<lambda>c. c \<noteq> dquote) (hd (split_unquoted False cs)))
            # map field_text (tl (split_unquoted False cs))"
        unfolding field_text_def [symmetric] by (metis list.simps(9))
      with True nq Cons show ?thesis by simp
    next
      case False
      with nq x Cons show ?thesis by auto
    qed
  qed
qed

lemma splitLine_fields: "splitLine line = map field_text (split_unquoted False line)"
proof -
  have "splitLine line = field_text (hd (split_unquoted False line))
          # map field_text (tl (split_unquoted False line))"
    by (simp add: splitLine_def splitLine_loop_split field_text_def)
  also have "\<dots> = map field_text (split_unquoted False line)"
    by (cases "split_unquoted False line") auto
  finally show ?thesis .
qed

lemma length_split_unquoted: "length (split_unquoted q cs) = Suc (unquoted_commas q cs)"
proof (induction cs arbitrary: q)
  case Nil
  show ?case by simp
next
  case (Cons c cs)
  obtain x xs where x: "split_unquoted (if c = dquote then \<not> q else q) cs = x # xs"
    by (cases "split_unquoted (if c = dquote then \<not> q else q) cs") auto
  have "length (x # xs) = Suc (unquoted_commas (if c = dquote then \<not> q else q) cs)"
    unfolding x [symmetric] by (rule Cons)
  with x show ?case by (auto simp: Cons)
qed

lemma length_splitLine: "length (splitLine line) = Suc (unquoted_commas False line)"
  by (simp add: splitLine_fields length_split_unquoted)

lemma splitLine_no_dquote: "f \<in> set (splitLine line) \<Longrightarrow> dquote \<notin> set f"
  using set_trim_subset by (fastforce simp: splitLine_fields field_text_def)

lemma splitLine_trimmed: "f \<in> set (splitLine line) \<Longrightarrow> trim f = f"
  by (auto simp: splitLine_fields field_text_def)

lemma splitLine_example:
  "splitLine (''a,'' @ [dquote] @ ''b,c'' @ [dquote] @ '',d'') = [''a'', ''b,c'', ''d'']"
  by code_simp

subsection \<open>Rows\<close>

lemma filter_nonblank:
  "filter (\<lambda>line. trim line \<noteq> []) (split_lines csvText) = nonblank_lines csvText"
  by (simp add: nonblank_lines_def blank_def trim_Nil_iff)

lemma parseCSV_Nil: "nonblank_lines csvText = [] \<Longrightarrow> parseCSV csvText = \<lparr>headers = [], rows = []\<rparr>"
  by (simp add: parseCSV_def filter_nonblank)

lemma parseCSV_Cons:
  "nonblank_lines csvText = h # ds \<Longrightarrow>
   parseCSV csvText = \<lparr>headers = splitLine h, rows = map (make_row (splitLine h)) ds\<rparr>"
  by (simp add: parseCSV_def filter_nonblank Let_def)

lemma fold_assign_other:
  "k \<notin> set hs \<or> k = ''__proto__'' \<Longrightarrow>
   fold (\<lambda>(index, header) r. assign r header (g index)) (enumerate n hs) r0 k = r0 k"
  by (induction hs arbitrary: n r0) (auto simp: assign_def)

lemma fold_assign_lookup:
  "j < length hs \<Longrightarrow> hs ! j \<notin> set (drop (Suc j) hs) \<Longrightarrow> hs ! j \<noteq> ''__proto__'' \<Longrightarrow>
   fold (\<lambda>(index, header) r. assign r header (g index)) (enumerate n hs) r0 (hs ! j)
     = Some (g (n + j))"
proof (induction hs arbitrary: n r0 j)
  case Nil
  then show ?case by simp
next
  case (Cons h hs)
  show ?case
  proof (cases j)
    case 0
    with Cons.prems have "h \<notin> set hs" "h \<noteq> ''__proto__''" by simp_all
    with 0 show ?thesis
      by (simp add: fold_assign_other) (simp add: assign_def)
  next
    case (Suc j')
    with Cons.prems show ?thesis by (simp add: Cons.IH)
  qed
qed

lemma fold_assign_dom:
  "dom (fold (\<lambda>(index, header) r. assign r header (g index)) (enumerate n hs) r0)
     \<subseteq> dom r0 \<union> set hs"
proof (induction hs arbitrary: n r0)
  case Nil
  show ?case by simp
next
  case (Cons h hs)
  have "dom (assign r0 h (g n)) \<subseteq> dom r0 \<union> {h}"
    by (auto simp: assign_def)
  with Cons [of "Suc n" "assign r0 h (g n)"] show ?case by auto
qed

lemma fold_assign_cong:
  "(\<And>i. n \<le> i \<Longrightarrow> i < n + length hs \<Longrightarrow> g i = g' i) \<Longrightarrow>
   fold (\<lambda>(index, header) r. assign r header (g index)) (enumerate n hs) r0
     = fold (\<lambda>(index, header) r. assign r header (g' index)) (enumerate n hs) r0"
proof (induction hs arbitrary: n r0)
  case Nil
  show ?case by simp
next
  case (Cons h hs)
  have "g n = g' n" by (rule Cons.prems) simp_all
  moreover have "fold (\<lambda>(index, header) r. assign r header (g index)) (enumerate (Suc n) hs) r
      = fold (\<lambda>(index, header) r. assign r header (g' index)) (enumerate (Suc n) hs) r" for r
    by (rule Cons.IH) (rule Cons.prems, simp_all)
  ultimately show ?case by simp
qed

lemma dom_make_row: "dom (make_row hdrs line) \<subseteq> set hdrs"
  unfolding make_row_def Let_def
  using fold_assign_dom [of "\<lambda>i. coerce (value_at (splitLine line) i)" 0 hdrs Map.empty]
  by simp

lemma make_row_proto: "make_row hdrs line ''__proto__'' = None"
  unfolding make_row_def Let_def by (simp add: fold_assign_other)

lemma make_row_lookup:
  assumes "j < length hdrs" "hdrs ! j \<notin> set (drop (Suc j) hdrs)" "hdrs ! j \<noteq> ''__proto__''"
  shows "make_row hdrs line (hdrs ! j) = Some (coerce (value_at (splitLine line) j))"
  unfolding make_row_def Let_def using assms by (simp add: fold_assign_lookup)

lemma make_row_cong:
  assumes "take (length hdrs) (splitLine l1) = take (length hdrs) (splitLine l2)"
  shows "make_row hdrs l1 = make_row hdrs l2"
proof -
  have "value_at (splitLine l1) i = value_at (splitLine l2) i" if "i < length hdrs" for i
  proof -
    have "value_at vs i = value_at (take (length hdrs) vs) i" for vs :: "string list"
      using that by (simp add: value_at_def)
    with assms show ?thesis by metis
  qed
  then show ?thesis
    unfolding make_row_def Let_def by (intro fold_assign_cong) simp
qed

lemma strip_quotes_id:
  assumes "dquote \<notin> set v"
  shows "strip_quotes v = v"
proof -
  have 1: "(case v of c # r \<Rightarrow> if c = dquote then r else v | [] \<Rightarrow> []) = v"
    using assms by (cases v) auto
  have 2: "v \<noteq> [] \<Longrightarrow> last v \<noteq> dquote"
    using assms last_in_set by metis
  show ?thesis unfolding strip_quotes_def 1 Let_def using 2 by auto
qed

lemma coerce_stored_cell: "dquote \<notin> set v \<Longrightarrow> coerce v = stored_cell v"
  by (simp add: coerce_def stored_cell_def strip_quotes_id)

lemma value_at_cases:
  "value_at vs j = [] \<or> value_at vs j \<in> set vs"
  by (simp add: value_at_def)

lemma value_at_splitLine:
  "dquote \<notin> set (value_at (splitLine line) j)" "trim (value_at (splitLine line) j) = value_at (splitLine line) j"
  using value_at_cases [of "splitLine line" j] splitLine_no_dquote splitLine_trimmed by auto

lemma parseCSV_cell:
  assumes "nonblank_lines csvText = h # ds" "i < length ds" "j < length (splitLine h)"
    "splitLine h ! j \<notin> set (drop (Suc j) (splitLine h))" "splitLine h ! j \<noteq> ''__proto__''"
  shows "(rows (parseCSV csvText) ! i) (splitLine h ! j)
           = Some (stored_cell (value_at (splitLine (ds ! i)) j))"
proof -
  have "rows (parseCSV csvText) ! i = make_row (splitLine h) (ds ! i)"
    using assms(1,2) by (simp add: parseCSV_Cons)
  then show ?thesis
    using assms(3,4,5) by (simp add: make_row_lookup coerce_stored_cell value_at_splitLine)
qed

lemma Number_42: "StringToNumber ''42'' = Fin 42"
proof -
  have "list_all is_digit ''42''" by (simp add: is_digit_def code_def)
  then have "StringToNumber ''42'' = segment_number ''42''"
    by (rule StringToNumber_digits)
  also have "\<dots> = round_double (of_nat 42)"
    by (simp add: segment_number_def segment_integer_def radix_val_def digit_val_def code_def)
  also have "\<dots> = Fin (of_nat 42)" by (rule round_double_of_nat) simp
  finally show ?thesis by simp
qed

lemma Number_42abc: "StringToNumber ''42abc'' = NaN"
  by code_simp

subsection \<open>Columns\<close>

lemma findCol_find: "findCol hdrs aliases = find (alias_eq aliases) hdrs"
proof -
  have "(\<lambda>h. list_ex (\<lambda>a. toLowerCase a = trim (toLowerCase h)) aliases) = alias_eq aliases"
    by (rule ext) (simp add: alias_eq_def toLowerCase_trim)
  then show ?thesis by (cases hdrs) (simp_all add: findCol_def)
qed

subsection \<open>The comparator\<close>

lemma String_or_empty_JStr [simp]: "String_or_empty numToString (JStr s) = s"
  by (simp add: String_or_empty_def)

lemma String_or_empty_falsy: "\<not> truthy a \<Longrightarrow> String_or_empty numToString a = []"
  by (simp add: String_or_empty_def)

lemma lower_char_idem [simp]: "lower_char (lower_char c) = lower_char c"
  by (rule code_inject) (auto simp: code_lower_char)

lemma toLowerCase_idem [simp]: "toLowerCase (toLowerCase s) = toLowerCase s"
  by (simp add: toLowerCase_def)

lemma is_sep_lower_char [simp]: "is_sep (lower_char c) = is_sep c"
proof -
  have "(lower_char c = d) = (c = d)" if "code d < 65" for d
  proof
    assume "lower_char c = d"
    then have "code (lower_char c) = code d" by simp
    with that have "code c = code d" unfolding code_lower_char by (auto split: if_splits)
    then show "c = d" by (rule code_inject)
  next
    assume "c = d"
    with that show "lower_char c = d" by (simp add: lower_char_def)
  qed
  then have "(lower_char c = CHR '':'') = (c = CHR '':'')" "(lower_char c = dot) = (c = dot)"
    "(lower_char c = CHR ''-'') = (c = CHR ''-'')"
    by (simp_all add: code_def dot_def)
  then show ?thesis by (simp add: is_sep_def)
qed

lemma matches_ci_lower: "matches_ci w (toLowerCase s) = matches_ci w s"
  by (simp add: matches_ci_def toLowerCase_def take_map o_def)

lemma strip_prefix_lower: "strip_prefix (toLowerCase s) = toLowerCase (strip_prefix s)"
proof -
  have "find (\<lambda>w. matches_ci w (toLowerCase s)) prefix_words = find (\<lambda>w. matches_ci w s) prefix_words"
    by (simp add: matches_ci_lower)
  then show ?thesis
    unfolding strip_prefix_def
    by (simp add: toLowerCase_def drop_map dropWhile_map_lower split: option.split)
qed

lemma clean_lower: "clean (toLowerCase s) = toLowerCase (clean s)"
  by (simp add: clean_def strip_prefix_lower toLowerCase_trim)

lemma lower_char_digit: "is_digit c \<Longrightarrow> lower_char c = c"
  by (auto simp: is_digit_def lower_char_def)

lemma lower_char_dot [simp]: "lower_char dot = dot"
  by (simp add: lower_char_def dot_def code_def)

lemma isVersion_lower: "isVersion s \<Longrightarrow> toLowerCase s = s"
  by (auto simp: isVersion_def toLowerCase_def list_all_iff lower_char_digit intro!: map_idI)

lemma clean_Nil [simp]: "clean [] = []"
  by (simp add: clean_def strip_prefix_def prefix_words_def matches_ci_def)

lemma pop_zeros_strip: "pop_zeros xs = strip_trailing (Fin 0) xs"
proof (induction xs rule: pop_zeros.induct)
  case (1 xs)
  show ?case
  proof (cases "xs \<noteq> [] \<and> last xs = Fin 0")
    case True
    then obtain ys where ys: "xs = ys @ [Fin 0]"
      by (cases xs rule: rev_cases) auto
    then have "strip_trailing (Fin 0) xs = strip_trailing (Fin 0) (butlast xs)"
      by (simp add: strip_trailing_def)
    with True "1.IH" show ?thesis by (subst pop_zeros.simps) simp
  next
    case False
    then have "strip_trailing (Fin 0) xs = xs"
      unfolding strip_trailing_def
      by (cases xs rule: rev_cases) auto
    with False show ?thesis by (subst pop_zeros.simps) auto
  qed
qed

lemma round_double_not_NaN [simp]: "round_double q \<noteq> NaN"
proof -
  have "round_pos x \<noteq> NaN" "negate (round_pos x) \<noteq> NaN" for x
    by (simp_all add: round_pos_def Let_def)
  then show ?thesis by (simp add: round_double_def)
qed

lemma segment_number_not_NaN [simp]: "segment_number s \<noteq> NaN" "NaN \<noteq> segment_number s"
  using round_double_not_NaN [of "of_nat (segment_integer s)"]
  by (auto simp: segment_number_def simp del: round_double_not_NaN)

lemma split_on_segments:
  "list_all (\<lambda>c. P c \<or> c = d) s \<Longrightarrow> list_all (list_all P) (split_on d s)"
  by (induction s) (auto split: list.splits)

lemma version_segments_digits:
  "isVersion s \<Longrightarrow> seg \<in> set (split_on dot s) \<Longrightarrow> list_all is_digit seg"
  using split_on_segments [of is_digit dot s] by (simp add: isVersion_def list_all_iff)

lemma version_numbers:
  assumes "isVersion s"
  shows "map StringToNumber (split_on dot s) = map segment_number (split_on dot s)"
  using version_segments_digits [OF assms] by (simp add: StringToNumber_digits)

lemma strip_trailing_subset: "set (strip_trailing z xs) \<subseteq> set xs"
  by (auto simp: strip_trailing_def dest: set_dropWhileD)

lemma strip_trailing_map:
  assumes "inj f"
  shows "strip_trailing (f z) (map f xs) = map f (strip_trailing z xs)"
proof -
  have "dropWhile (\<lambda>x. x = f z) (map f ys) = map f (dropWhile (\<lambda>x. x = z) ys)" for ys
    using assms by (induction ys) (auto dest: injD)
  then show ?thesis by (simp add: strip_trailing_def rev_map)
qed

lemma list_all2_strict_eq:
  "NaN \<notin> set xs \<Longrightarrow> list_all2 strict_eq xs ys = (xs = ys)"
  by (induction xs arbitrary: ys) (case_tac ys; auto simp: strict_eq_def)+

lemma list_all2_strict_eq_sym: "list_all2 strict_eq xs ys = list_all2 strict_eq ys xs"
  by (induction xs arbitrary: ys) (case_tac ys; auto simp: strict_eq_def)+

lemma segments_equal_eq:
  "segments_equal conv z ca cb
     = (strip_trailing z (map conv (split_on dot ca))
        = strip_trailing z (map conv (split_on dot cb)))"
proof -
  have *: "(if length va \<noteq> length vb then False
             else list_all (\<lambda>i. va ! i = vb ! i) [0..<length va]) = (va = vb)"
    for va vb :: "'a list"
    by (auto simp: list_all_iff intro: nth_equalityI)
  show ?thesis
    unfolding segments_equal_def Let_def by (rule *)
qed

lemma smartCompare_on_versions:
  assumes va: "isVersion (clean (trim (String_or_empty numToString a)))"
    and vb: "isVersion (clean (trim (String_or_empty numToString b)))"
  shows "smartCompare numToString a b
     = version_equal_numbers (clean (trim (String_or_empty numToString a)))
         (clean (trim (String_or_empty numToString b)))"
proof -
  define sa where "sa = trim (String_or_empty numToString a)"
  define sb where "sb = trim (String_or_empty numToString b)"
  define A where "A = strip_trailing (Fin 0) (map segment_number (split_on dot (clean sa)))"
  define B where "B = strip_trailing (Fin 0) (map segment_number (split_on dot (clean sb)))"
  from va vb have v: "isVersion (clean sa)" "isVersion (clean sb)"
    by (simp_all add: sa_def sb_def)
  then have ne: "sa \<noteq> []" "sb \<noteq> []" by (auto simp: isVersion_def)
  have "NaN \<notin> set (map segment_number (split_on dot (clean sa)))"
    by auto
  then have nan: "NaN \<notin> set A"
    using strip_trailing_subset [of "Fin 0" "map segment_number (split_on dot (clean sa))"]
    unfolding A_def by blast
  have l: "clean sa = clean sb" if "toLowerCase (clean sa) = toLowerCase (clean sb)"
    using that v by (simp add: isVersion_lower)
  have l': "clean sa = clean sb" if "toLowerCase sa = toLowerCase sb"
  proof -
    from that have "clean (toLowerCase sa) = clean (toLowerCase sb)" by simp
    then show ?thesis by (simp add: clean_lower l)
  qed
  have e: "A = B" if "clean sa = clean sb" using that by (simp add: A_def B_def)
  have "smartCompare numToString a b = (A = B)"
    unfolding smartCompare_def sa_def [symmetric] sb_def [symmetric] Let_def
    using ne v nan l l' e
    by (auto simp: pop_zeros_strip version_numbers list_all2_strict_eq
        simp flip: A_def B_def)
  then show ?thesis
    by (simp add: version_equal_numbers_def segments_equal_eq A_def B_def sa_def sb_def)
qed

lemma digit_val_le: "is_digit c \<Longrightarrow> digit_val c \<le> 9"
  by (auto simp: is_digit_def digit_val_def)

lemma radix_val_snoc: "radix_val r (ds @ [c]) = r * radix_val r ds + digit_val c"
  by (simp add: radix_val_def)

lemma radix_val_bound: "list_all is_digit ds \<Longrightarrow> radix_val 10 ds < 10 ^ length ds"
proof (induction ds rule: rev_induct)
  case Nil
  show ?case by (simp add: radix_val_def)
next
  case (snoc c ds)
  then have "radix_val 10 ds < 10 ^ length ds" "digit_val c \<le> 9"
    by (simp_all add: digit_val_le)
  then show ?case by (simp add: radix_val_snoc)
qed

text \<open>
  A segment of at most 15 digits denotes an integer below \<open>2^53\<close>, and its Number
  is that integer.
\<close>

lemma segment_number_exact:
  assumes "list_all is_digit seg" "length seg \<le> 15"
  shows "segment_number seg = Fin (of_nat (segment_integer seg))"
proof -
  have "radix_val 10 seg < 10 ^ length seg" using assms(1) by (rule radix_val_bound)
  also have "(10::nat) ^ length seg \<le> 10 ^ 15"
    using assms(2) by (intro power_increasing) auto
  also have "(10::nat) ^ 15 < 2 ^ 53" by simp
  finally show ?thesis
    unfolding segment_number_def segment_integer_def by (rule round_double_of_nat)
qed

text \<open>
  With segments of at most 15 digits the comparison of the Numbers is the comparison of
  the integers.
\<close>

lemma version_equal_numbers_exact:
  assumes v: "isVersion ca" "isVersion cb"
    and s: "list_all (\<lambda>seg. length seg \<le> 15) (split_on dot ca)"
      "list_all (\<lambda>seg. length seg \<le> 15) (split_on dot cb)"
  shows "version_equal_numbers ca cb = version_equal ca cb"
proof -
  define emb :: "nat \<Rightarrow> jsnum" where "emb n = Fin (of_nat n)" for n
  have inj: "inj emb" by (auto simp: emb_def inj_on_def)
  have z: "Fin 0 = emb 0" by (simp add: emb_def)
  have m: "map segment_number (split_on dot c) = map emb (map segment_integer (split_on dot c))"
    if "isVersion c" "list_all (\<lambda>seg. length seg \<le> 15) (split_on dot c)" for c
    using that version_segments_digits [of c]
    by (simp add: list_all_iff segment_number_exact emb_def)
  show ?thesis
    unfolding version_equal_numbers_def version_equal_def segments_equal_eq
      m [OF v(1) s(1)] m [OF v(2) s(2)] z strip_trailing_map [OF inj]
    by (rule inj_map_eq_map [OF inj])
qed

lemma segment_number_small:
  "segment_number [] = Fin 0" "segment_number ''0'' = Fin 0" "segment_number ''1'' = Fin 1"
  "segment_number ''2'' = Fin 2" "segment_number ''3'' = Fin 3" "segment_number ''10'' = Fin 10"
  by (simp_all add: segment_number_exact is_digit_def segment_integer_def radix_val_def
      digit_val_def code_def)

lemma version_examples:
  "version_equal_numbers ''1.0.0'' ''1''" "version_equal_numbers ''2.1'' ''2.1.0''"
  "\<not> version_equal_numbers ''1.2'' ''1.3''" "\<not> version_equal_numbers ''1.10'' ''1.1''"
  by (simp_all add: version_equal_numbers_def segments_equal_eq dot_def segment_number_small
      strip_trailing_def)

text \<open>
  The first integer that is not a double is \<open>2^53 + 1\<close>; it lies half way between two
  doubles and goes to the even one, \<open>2^53\<close>.
\<close>

lemma bitlen_numeral:
  "bitlen (numeral (Num.Bit0 n)) = Suc (bitlen (numeral n))"
  "bitlen (numeral (Num.Bit1 n)) = Suc (bitlen (numeral n))"
  "bitlen (numeral Num.One) = Suc 0"
  by (subst bitlen.simps, simp add: bitlen.simps)+

lemma round_double_2_53:
  "round_double 9007199254740993 = Fin 9007199254740992"
  "round_double 9007199254740992 = Fin 9007199254740992"
proof -
  have f: "\<lfloor>(9007199254740993::rat) / 2\<rfloor> = 4503599627370496"
    by (rule floor_unique) simp_all
  show "round_double 9007199254740993 = Fin 9007199254740992"
    by (simp add: round_double_def round_pos_def floor_log2_def round_half_even_def
        bitlen_numeral Let_def f)
  show "round_double 9007199254740992 = Fin 9007199254740992"
    by (simp add: round_double_def round_pos_def floor_log2_def round_half_even_def
        bitlen_numeral Let_def)
qed

lemma segment_number_2_53:
  "segment_number ''9007199254740993'' = Fin 9007199254740992"
  "segment_number ''9007199254740992'' = Fin 9007199254740992"
  by (simp_all add: segment_number_def segment_integer_def radix_val_def digit_val_def code_def
      round_double_2_53)

lemma Number_of_digits:
  "StringToNumber ''0'' = Fin 0" "StringToNumber ''2'' = Fin 2" "StringToNumber ''5'' = Fin 5"
  "StringToNumber ''12'' = Fin 12"
  by (simp_all add: StringToNumber_digits segment_number_exact is_digit_def segment_integer_def
      radix_val_def digit_val_def code_def)

lemma round_double_7_2: "round_double (7 / 2) = Fin (7 / 2)"
proof -
  have "quotient_of (7 / 2) = (7, 2)"
    by code_simp
  then show ?thesis
    by (simp add: round_double_def round_pos_def floor_log2_def round_half_even_def
        bitlen_numeral Let_def)
qed

lemma Number_3_5: "StringToNumber ''3.5'' = Fin (7 / 2)"
proof -
  have t: "trim ''3.5'' = ''3.5''" by code_simp
  have n: "non_decimal ''3.5'' = None" by code_simp
  have e: "exponent_part [] = Some 0" by (simp add: exponent_part_def)
  have "unsigned_decimal ''3.5'' = round_double (7 / 2)"
    by (simp add: unsigned_decimal_def is_digit_def code_def dot_def e radix_val_def
        digit_val_def Let_def)
  then show ?thesis
    by (simp add: StringToNumber_def t n round_double_7_2)
qed

lemma Number_minus_2: "StringToNumber ''-2'' = Fin (- 2)"
proof -
  have t: "trim ''-2'' = ''-2''" by code_simp
  have n: "non_decimal ''-2'' = None" by code_simp
  have e: "exponent_part [] = Some 0" by (simp add: exponent_part_def)
  have "round_double (of_nat 2) = Fin (of_nat 2)" by (rule round_double_of_nat) simp
  then have "unsigned_decimal ''2'' = Fin 2"
    by (simp add: unsigned_decimal_def is_digit_def code_def dot_def e radix_val_def
        digit_val_def Let_def)
  then show ?thesis
    by (simp add: StringToNumber_def t n)
qed

text \<open>The table with a column named \<open>__proto__\<close>.\<close>

lemma proto_table:
  "headers (parseCSV (''__proto__,B'' @ [LF] @ ''5,2'')) = [''__proto__'', ''B'']"
  "(rows (parseCSV (''__proto__,B'' @ [LF] @ ''5,2'')) ! 0) ''__proto__'' = None"
  "(rows (parseCSV (''__proto__,B'' @ [LF] @ ''5,2'')) ! 0) ''B'' = Some (JNum (Fin 2))"
proof -
  let ?t = "''__proto__,B'' @ [LF] @ ''5,2''"
  have n: "nonblank_lines ?t = [''__proto__,B'', ''5,2'']" by code_simp
  have h: "splitLine ''__proto__,B'' = [''__proto__'', ''B'']" by code_simp
  have d: "splitLine ''5,2'' = [''5'', ''2'']" by code_simp
  have p: "parseCSV ?t = \<lparr>headers = [''__proto__'', ''B''],
      rows = [make_row [''__proto__'', ''B''] ''5,2'']\<rparr>"
    using parseCSV_Cons [OF n] by (simp add: h)
  show "headers (parseCSV ?t) = [''__proto__'', ''B'']"
    unfolding p by simp
  show "(rows (parseCSV ?t) ! 0) ''__proto__'' = None"
    unfolding p by (simp add: make_row_proto)
  show "(rows (parseCSV ?t) ! 0) ''B'' = Some (JNum (Fin 2))"
    using parseCSV_cell [OF n, of 0 1]
    by (simp add: h d value_at_def stored_cell_def Number_of_digits)
qed

lemma strip_prefix_ver:
  assumes "matches_ci ''ver'' s"
  shows "strip_prefix s = tl s"
proof -
  from assms obtain a b r where s: "s = a # b # r"
    and a: "lower_char a = CHR ''v''" and b: "lower_char b = CHR ''e''"
    by (cases s; cases "tl s"; cases "tl (tl s)") (auto simp: matches_ci_def toLowerCase_def)
  have "\<not> is_sep (lower_char b)"
    unfolding b by (simp add: is_sep_def is_space_def code_def dot_def)
  then have nb: "\<not> is_sep b" by simp
  have "find (\<lambda>w. matches_ci w s) prefix_words = Some ''v''"
    by (simp add: prefix_words_def matches_ci_def toLowerCase_def s a b)
  then show ?thesis
    by (simp add: strip_prefix_def s nb)
qed

section \<open>The claims\<close>

text \<open>
  C1. For all inputs \<open>a\<close> and \<open>b\<close> whose prefix-cleaned strings both consist of one
  or more digits and dots only, \<open>smartCompare\<close> decides equality by splitting each
  cleaned string on the dot, converting every segment to an integer, stripping the
  trailing zero segments of each list, and then returning false if the two lists
  differ in length and the result of elementwise equality otherwise; in particular
  \<open>smartCompare("RC 1.0.0", "Build 1")\<close> and \<open>smartCompare("v2.1", "2.1.0")\<close> are
  true and \<open>smartCompare("1.2", "1.3")\<close> is false.

  As stated this fails for segments of 16 digits and more. The source converts with
  \<open>Number\<close>, whose values are doubles: the integers 9007199254740993 and
  9007199254740992 (\<open>2^53 + 1\<close> and \<open>2^53\<close>) both become \<open>2^53\<close>. By their integers
  the two strings are different versions, and \<open>smartCompare\<close> returns true for them.
\<close>

theorem smartCompare_big_segments_counterexample:
  "isVersion (clean (trim ''9007199254740993''))
   \<and> isVersion (clean (trim ''9007199254740992''))
   \<and> \<not> version_equal (clean (trim ''9007199254740993'')) (clean (trim ''9007199254740992''))
   \<and> smartCompare no_text (JStr ''9007199254740993'') (JStr ''9007199254740992'')"
proof -
  have c: "clean (trim ''9007199254740993'') = ''9007199254740993''"
    "clean (trim ''9007199254740992'') = ''9007199254740992''"
    by code_simp+
  have v: "isVersion ''9007199254740993''" "isVersion ''9007199254740992''"
    by code_simp+
  have s: "split_on dot ''9007199254740993'' = [''9007199254740993'']"
    "split_on dot ''9007199254740992'' = [''9007199254740992'']"
    by code_simp+
  have i: "segment_integer ''9007199254740993'' = 9007199254740993"
    "segment_integer ''9007199254740992'' = 9007199254740992"
    by (simp_all add: segment_integer_def radix_val_def digit_val_def code_def)
  have 1: "\<not> version_equal ''9007199254740993'' ''9007199254740992''"
    unfolding version_equal_def segments_equal_eq s
    by (simp add: i strip_trailing_def)
  have n: "version_equal_numbers ''9007199254740993'' ''9007199254740992''"
    unfolding version_equal_numbers_def segments_equal_eq s
    by (simp add: segment_number_2_53)
  have 2: "smartCompare no_text (JStr ''9007199254740993'') (JStr ''9007199254740992'')"
    by (subst smartCompare_on_versions) (simp_all add: c v n)
  from 1 2 show ?thesis by (simp add: c v)
qed

text \<open>
  C1, amended: For all inputs \<open>a\<close> and \<open>b\<close> whose prefix-cleaned strings both consist
  of one or more digits and dots only, \<open>smartCompare\<close> decides equality by splitting
  each cleaned string on the dot, converting every segment to a Number (the double
  nearest to the integer it denotes), stripping the trailing zero segments of each
  list, and then returning false if the two lists differ in length and the result of
  elementwise equality otherwise. When no segment has more than 15 digits, every
  such Number is the integer itself and the comparison is the one of the integers. In
  particular \<open>smartCompare("RC 1.0.0", "Build 1")\<close> and
  \<open>smartCompare("v2.1", "2.1.0")\<close> are true and \<open>smartCompare("1.2", "1.3")\<close> is
  false.
\<close>

theorem smartCompare_version_segments:
  "(isVersion (clean (trim (String_or_empty numToString a)))
      \<and> isVersion (clean (trim (String_or_empty numToString b))) \<longrightarrow>
      smartCompare numToString a b
        = version_equal_numbers (clean (trim (String_or_empty numToString a)))
            (clean (trim (String_or_empty numToString b))))
   \<and> (isVersion (clean (trim (String_or_empty numToString a)))
      \<and> isVersion (clean (trim (String_or_empty numToString b)))
      \<and> list_all (\<lambda>seg. length seg \<le> 15)
           (split_on dot (clean (trim (String_or_empty numToString a))))
      \<and> list_all (\<lambda>seg. length seg \<le> 15)
           (split_on dot (clean (trim (String_or_empty numToString b)))) \<longrightarrow>
      smartCompare numToString a b
        = version_equal (clean (trim (String_or_empty numToString a)))
            (clean (trim (String_or_empty numToString b))))
   \<and> (list_all is_digit seg \<and> length seg \<le> 15 \<longrightarrow>
        segment_number seg = Fin (of_nat (segment_integer seg)))
   \<and> smartCompare numToString (JStr ''RC 1.0.0'') (JStr ''Build 1'')
   \<and> smartCompare numToString (JStr ''v2.1'') (JStr ''2.1.0'')
   \<and> \<not> smartCompare numToString (JStr ''1.2'') (JStr ''1.3'')"
proof -
  have c: "clean (trim ''RC 1.0.0'') = ''1.0.0''" "clean (trim ''Build 1'') = ''1''"
    "clean (trim ''v2.1'') = ''2.1''" "clean (trim ''2.1.0'') = ''2.1.0''"
    "clean (trim ''1.2'') = ''1.2''" "clean (trim ''1.3'') = ''1.3''"
    by code_simp+
  have v: "isVersion ''1.0.0''" "isVersion ''1''" "isVersion ''2.1''" "isVersion ''2.1.0''"
    "isVersion ''1.2''" "isVersion ''1.3''"
    by code_simp+
  have "smartCompare numToString (JStr ''RC 1.0.0'') (JStr ''Build 1'')"
    by (subst smartCompare_on_versions) (simp_all add: c v version_examples)
  moreover have "smartCompare numToString (JStr ''v2.1'') (JStr ''2.1.0'')"
    by (subst smartCompare_on_versions) (simp_all add: c v version_examples)
  moreover have "\<not> smartCompare numToString (JStr ''1.2'') (JStr ''1.3'')"
    by (subst smartCompare_on_versions) (simp_all add: c v version_examples)
  moreover have "list_all is_digit seg \<and> length seg \<le> 15 \<longrightarrow>
      segment_number seg = Fin (of_nat (segment_integer seg))"
    using segment_number_exact by blast
  ultimately show ?thesis
    using smartCompare_on_versions [of numToString a b]
      version_equal_numbers_exact [of "clean (trim (String_or_empty numToString a))"
        "clean (trim (String_or_empty numToString b))"]
    by auto
qed

theorem smartCompare_version_segments_witness:
  "isVersion (clean (trim ''v1.10'')) \<and> isVersion (clean (trim ''Build: 1.1''))
   \<and> list_all (\<lambda>seg. length seg \<le> 15) (split_on dot (clean (trim ''v1.10'')))
   \<and> list_all (\<lambda>seg. length seg \<le> 15) (split_on dot (clean (trim ''Build: 1.1'')))
   \<and> smartCompare (\<lambda>n. []) (JStr ''v1.10'') (JStr ''Build: 1.1'')
       = version_equal_numbers ''1.10'' ''1.1''
   \<and> smartCompare (\<lambda>n. []) (JStr ''v1.10'') (JStr ''Build: 1.1'') = version_equal ''1.10'' ''1.1''
   \<and> \<not> smartCompare (\<lambda>n. []) (JStr ''v1.10'') (JStr ''Build: 1.1'')
   \<and> list_all is_digit ''10'' \<and> segment_number ''10'' = Fin 10"
proof -
  have d: "list_all is_digit ''10''" "segment_integer ''10'' = 10"
    by code_simp+
  with smartCompare_version_segments [where seg = "''10''"]
  have s: "segment_number ''10'' = Fin 10" by simp
  have c: "clean (trim ''v1.10'') = ''1.10''" "clean (trim ''Build: 1.1'') = ''1.1''"
    by code_simp+
  have v: "isVersion ''1.10''" "isVersion ''1.1''"
    by code_simp+
  have l: "list_all (\<lambda>seg. length seg \<le> 15) (split_on dot ''1.10'')"
    "list_all (\<lambda>seg. length seg \<le> 15) (split_on dot ''1.1'')"
    by code_simp+
  have e: "clean (trim (String_or_empty (\<lambda>n. []) (JStr ''v1.10''))) = ''1.10''"
    "clean (trim (String_or_empty (\<lambda>n. []) (JStr ''Build: 1.1''))) = ''1.1''"
    by (simp_all add: c)
  note t = smartCompare_version_segments [where numToString = "\<lambda>n. []" and a = "JStr ''v1.10''"
      and b = "JStr ''Build: 1.1''", unfolded e]
  have 1: "smartCompare (\<lambda>n. []) (JStr ''v1.10'') (JStr ''Build: 1.1'')
      = version_equal_numbers ''1.10'' ''1.1''"
    using t v by blast
  have 2: "smartCompare (\<lambda>n. []) (JStr ''v1.10'') (JStr ''Build: 1.1'')
      = version_equal ''1.10'' ''1.1''"
    using t v l by blast
  have 3: "\<not> smartCompare (\<lambda>n. []) (JStr ''v1.10'') (JStr ''Build: 1.1'')"
    unfolding 1 by (rule version_examples)
  show ?thesis
    unfolding c using v l 1 2 3 d(1) s by blast
qed

text \<open>
  C2. The comparator is total and symmetric: for every pair of inputs \<open>a\<close> and \<open>b\<close>
  (strings in particular), \<open>smartCompare(a, b)\<close> returns, and
  \<open>smartCompare(a, b) = smartCompare(b, a)\<close>, the prefix-stripped and the numeric
  version-segment strategies included. It returns because no operation it applies to a
  string can raise and its two loops end: \<open>smartCompare\<close> above is a total function
  with no error result, and the loop that pops trailing zeros is defined with its
  termination proof.
\<close>

theorem smartCompare_symmetric:
  "smartCompare numToString a b = smartCompare numToString b a"
  unfolding smartCompare_def Let_def
  by (auto simp: list_all2_strict_eq_sym)

theorem smartCompare_symmetric_witness:
  "smartCompare (\<lambda>n. []) (JStr ''RC 1'') (JStr ''v1.0'') = smartCompare (\<lambda>n. []) (JStr ''v1.0'') (JStr ''RC 1'')"
  using smartCompare_symmetric [of "\<lambda>n. []" "JStr ''RC 1''" "JStr ''v1.0''"] by simp

text \<open>
  C3. For every CSV text whose first non-blank line has \<open>N\<close> fields (one more than
  its commas outside quotes) and which has \<open>M\<close> non-blank lines after it, \<open>parseCSV\<close>
  returns \<open>N\<close> headers and \<open>M\<close> rows. The lines that are empty or consist of white
  space only, a last line after a final line break among them, are discarded before
  the first remaining line is taken as the header line, and with no line remaining
  the result is \<open>{headers: [], rows: []}\<close>.
\<close>

theorem parseCSV_headers_and_rows:
  "(case nonblank_lines csvText of
      [] \<Rightarrow> parseCSV csvText = \<lparr>headers = [], rows = []\<rparr>
    | h # ds \<Rightarrow>
        headers (parseCSV csvText) = splitLine h
        \<and> length (headers (parseCSV csvText)) = Suc (unquoted_commas False h)
        \<and> length (rows (parseCSV csvText)) = length ds)"
  by (simp add: parseCSV_Nil parseCSV_Cons length_splitLine split: list.split)

theorem parseCSV_headers_and_rows_witness:
  "headers (parseCSV (''A,B'' @ [LF, LF] @ ''1,2'' @ [CR, LF] @ ''  '' @ [LF] @ ''3,4'' @ [LF]))
     = [''A'', ''B'']
   \<and> length (rows (parseCSV (''A,B'' @ [LF, LF] @ ''1,2'' @ [CR, LF] @ ''  '' @ [LF] @ ''3,4'' @ [LF])))
     = 2"
proof -
  let ?t = "''A,B'' @ [LF, LF] @ ''1,2'' @ [CR, LF] @ ''  '' @ [LF] @ ''3,4'' @ [LF]"
  have n: "nonblank_lines ?t = [''A,B'', ''1,2'', ''3,4'']" by code_simp
  have s: "splitLine ''A,B'' = [''A'', ''B'']" by code_simp
  show ?thesis
    using parseCSV_headers_and_rows [of ?t] unfolding n by (simp add: s)
qed

text \<open>
  C4. In field splitting, a double-quote character flips the \<open>inQuotes\<close> state and is
  consumed (it is never copied into a field); a comma outside quotes ends the current
  field, which is trimmed and pushed; any other character, a comma inside quotes
  included, is appended to the current field; at the end of the line the last field is
  pushed. So the fields of a line are its pieces between the commas outside quotes,
  each without its quote characters and trimmed, and the line \<open>a,"b,c",d\<close> has
  exactly the three fields \<open>a\<close>, \<open>b,c\<close> and \<open>d\<close>.
\<close>

theorem splitLine_quotes_and_commas:
  "splitLine_loop result cur inQuotes (dquote # cs) = splitLine_loop result cur (\<not> inQuotes) cs
   \<and> splitLine_loop result cur False (comma # cs) = splitLine_loop (result @ [trim cur]) [] False cs
   \<and> (c \<noteq> dquote \<and> (c = comma \<longrightarrow> inQuotes) \<longrightarrow>
        splitLine_loop result cur inQuotes (c # cs) = splitLine_loop result (cur @ [c]) inQuotes cs)
   \<and> splitLine_loop result cur inQuotes [] = result @ [trim cur]
   \<and> splitLine line = map field_text (split_unquoted False line)
   \<and> (\<forall>f \<in> set (splitLine line). dquote \<notin> set f)
   \<and> splitLine (''a,'' @ [dquote] @ ''b,c'' @ [dquote] @ '',d'') = [''a'', ''b,c'', ''d'']"
proof -
  have "splitLine_loop result cur inQuotes (dquote # cs) = splitLine_loop result cur (\<not> inQuotes) cs"
    by simp
  moreover have "splitLine_loop result cur False (comma # cs)
      = splitLine_loop (result @ [trim cur]) [] False cs"
    by simp
  moreover have "c \<noteq> dquote \<and> (c = comma \<longrightarrow> inQuotes) \<longrightarrow>
      splitLine_loop result cur inQuotes (c # cs) = splitLine_loop result (cur @ [c]) inQuotes cs"
    by auto
  moreover have "splitLine_loop result cur inQuotes [] = result @ [trim cur]"
    by simp
  moreover note splitLine_fields [of line]
  moreover have "\<forall>f \<in> set (splitLine line). dquote \<notin> set f"
    using splitLine_no_dquote by blast
  moreover note splitLine_example
  ultimately show ?thesis by blast
qed

theorem splitLine_quotes_and_commas_witness:
  "splitLine_loop [''x''] ''b'' True (comma # ''c'') = splitLine_loop [''x''] (''b'' @ [comma]) True ''c''
   \<and> splitLine ''p, q,r'' = [''p'', ''q'', ''r'']
   \<and> dquote \<notin> set ''q''"
proof -
  note t = splitLine_quotes_and_commas [of "[''x'']" "''b''" True "''c''" comma "''p, q,r''"]
  have s: "splitLine ''p, q,r'' = [''p'', ''q'', ''r'']" by code_simp
  from t have "comma \<noteq> dquote \<and> (comma = comma \<longrightarrow> True) \<longrightarrow>
      splitLine_loop [''x''] ''b'' True (comma # ''c'')
        = splitLine_loop [''x''] (''b'' @ [comma]) True ''c''"
    by blast
  then have a: "splitLine_loop [''x''] ''b'' True (comma # ''c'')
      = splitLine_loop [''x''] (''b'' @ [comma]) True ''c''"
    by simp
  from t have "\<forall>f \<in> set (splitLine ''p, q,r''). dquote \<notin> set f" by blast
  then have b: "dquote \<notin> set ''q''" unfolding s by simp
  from a s b show ?thesis by blast
qed

text \<open>
  C5. Every cell of every data line is trimmed, and it is stored as a number if it is
  non-empty and parses fully as a number, and as the string it is (possibly empty)
  otherwise: the cell \<open>42\<close> is stored as the number 42, the cell \<open>42abc\<close> as the
  string \<open>42abc\<close> and an empty cell as the empty string; the cells \<open>12\<close>, \<open>3.5\<close> and
  \<open>-2\<close> are stored as numbers too.

  The loop body computes this value for every field of a line, and the row holds it
  under every header name but one (under a name that occurs again further right, the
  cell of that later column). The exception is a column named \<open>__proto__\<close>: the
  assignment to that name stores nothing, so the table parsed from the two lines
  \<open>__proto__,B\<close> and \<open>5,2\<close> has the single row \<open>{B: 2}\<close>, where the cell \<open>5\<close> is
  stored neither as a number nor as a string.
\<close>

theorem cells_stored_by_type:
  "(f \<in> set (splitLine line) \<longrightarrow>
      trim f = f
      \<and> coerce f = (if f \<noteq> [] \<and> \<not> isNaN (StringToNumber f) then JNum (StringToNumber f)
                    else JStr f))
   \<and> (nonblank_lines csvText = h # ds \<and> i < length ds \<and> j < length (splitLine h)
      \<and> splitLine h ! j \<notin> set (drop (Suc j) (splitLine h))
      \<and> splitLine h ! j \<noteq> ''__proto__'' \<longrightarrow>
      (let v = value_at (splitLine (ds ! i)) j
       in trim v = v
          \<and> (rows (parseCSV csvText) ! i) (splitLine h ! j)
              = Some (if v \<noteq> [] \<and> \<not> isNaN (StringToNumber v) then JNum (StringToNumber v)
                      else JStr v)))
   \<and> coerce ''42'' = JNum (Fin 42)
   \<and> coerce ''42abc'' = JStr ''42abc''
   \<and> coerce [] = JStr []
   \<and> coerce ''12'' = JNum (Fin 12)
   \<and> coerce ''3.5'' = JNum (Fin (7 / 2))
   \<and> coerce ''-2'' = JNum (Fin (- 2))
   \<and> headers (parseCSV (''__proto__,B'' @ [LF] @ ''5,2'')) = [''__proto__'', ''B'']
   \<and> coerce ''5'' = JNum (Fin 5)
   \<and> (rows (parseCSV (''__proto__,B'' @ [LF] @ ''5,2'')) ! 0) ''__proto__'' = None
   \<and> (rows (parseCSV (''__proto__,B'' @ [LF] @ ''5,2'')) ! 0) ''B'' = Some (JNum (Fin 2))"
proof -
  have n: "coerce ''42'' = JNum (Fin 42)" "coerce ''12'' = JNum (Fin 12)"
    "coerce ''3.5'' = JNum (Fin (7 / 2))" "coerce ''-2'' = JNum (Fin (- 2))"
    "coerce ''5'' = JNum (Fin 5)"
    by (simp_all add: coerce_stored_cell dquote_def stored_cell_def Number_42 Number_of_digits
        Number_3_5 Number_minus_2)
  have "coerce ''42abc'' = JStr ''42abc''"
    by (simp add: coerce_stored_cell dquote_def stored_cell_def Number_42abc)
  moreover have "coerce [] = JStr []"
    by (simp add: coerce_stored_cell stored_cell_def)
  moreover have "f \<in> set (splitLine line) \<longrightarrow>
      trim f = f
      \<and> coerce f = (if f \<noteq> [] \<and> \<not> isNaN (StringToNumber f) then JNum (StringToNumber f)
                    else JStr f)"
    using splitLine_no_dquote [of f line] splitLine_trimmed [of f line]
    by (auto simp: coerce_stored_cell stored_cell_def)
  moreover have "nonblank_lines csvText = h # ds \<and> i < length ds \<and> j < length (splitLine h)
      \<and> splitLine h ! j \<notin> set (drop (Suc j) (splitLine h))
      \<and> splitLine h ! j \<noteq> ''__proto__'' \<longrightarrow>
      (let v = value_at (splitLine (ds ! i)) j
       in trim v = v
          \<and> (rows (parseCSV csvText) ! i) (splitLine h ! j)
              = Some (if v \<noteq> [] \<and> \<not> isNaN (StringToNumber v) then JNum (StringToNumber v)
                      else JStr v))"
    using parseCSV_cell [of csvText h ds i j]
    by (simp add: Let_def value_at_splitLine stored_cell_def)
  moreover note n proto_table
  ultimately show ?thesis by blast
qed

theorem cells_stored_by_type_witness:
  "(rows (parseCSV (''A,B,C'' @ [LF] @ ''42, 42abc ,'')) ! 0) ''A'' = Some (JNum (Fin 42))
   \<and> (rows (parseCSV (''A,B,C'' @ [LF] @ ''42, 42abc ,'')) ! 0) ''B'' = Some (JStr ''42abc'')
   \<and> (rows (parseCSV (''A,B,C'' @ [LF] @ ''42, 42abc ,'')) ! 0) ''C'' = Some (JStr [])
   \<and> ''42abc'' \<in> set (splitLine ''42, 42abc ,'') \<and> coerce ''42abc'' = JStr ''42abc''"
proof -
  let ?t = "''A,B,C'' @ [LF] @ ''42, 42abc ,''"
  have n: "nonblank_lines ?t = [''A,B,C'', ''42, 42abc ,'']" by code_simp
  have h: "splitLine ''A,B,C'' = [''A'', ''B'', ''C'']" by code_simp
  have d: "splitLine ''42, 42abc ,'' = [''42'', ''42abc'', []]" by code_simp
  note t = cells_stored_by_type [where csvText = ?t and h = "''A,B,C''"
      and ds = "[''42, 42abc ,'']" and i = 0]
  have "(rows (parseCSV ?t) ! 0) ''A'' = Some (JNum (Fin 42))"
    using t [where j = 0] unfolding n by (simp add: h d value_at_def Number_42 Let_def)
  moreover have "(rows (parseCSV ?t) ! 0) ''B'' = Some (JStr ''42abc'')"
    using t [where j = 1] unfolding n by (simp add: h d value_at_def Number_42abc Let_def)
  moreover have "(rows (parseCSV ?t) ! 0) ''C'' = Some (JStr [])"
    using t [where j = 2] unfolding n by (simp add: h d value_at_def Let_def)
  moreover have "''42abc'' \<in> set (splitLine ''42, 42abc ,'')"
    by (simp add: d)
  moreover from this have "coerce ''42abc'' = JStr ''42abc''"
    using t [where f = "''42abc''" and line = "''42, 42abc ,''"] by (simp add: Number_42abc)
  ultimately show ?thesis by blast
qed

text \<open>
  C6. \<open>findCol(headers, aliases)\<close> returns the first header, in the order of the
  table's headers, for which some alias equals the header under case-insensitive
  comparison after trimming the header (the aliases are not trimmed), and the
  not-found value if there is none; for no headers it returns the not-found value.
  The comparison is equality, not containment: the header \<open>Build Version\<close> is not
  found by the aliases \<open>Build\<close> and \<open>Version\<close>, and the header \<open>Build Version\<close>
  followed by a space is found by any alias list that contains \<open>build version\<close>.
\<close>

theorem findCol_first_match:
  "(case findCol hdrs aliases of
      None \<Rightarrow> list_all (\<lambda>h. \<not> alias_eq aliases h) hdrs
    | Some h \<Rightarrow>
        (\<exists>i < length hdrs. hdrs ! i = h \<and> alias_eq aliases h
           \<and> (\<forall>k < i. \<not> alias_eq aliases (hdrs ! k))))
   \<and> findCol [] aliases = None
   \<and> (''build version'' \<in> set aliases \<longrightarrow>
        findCol [''Build Version ''] aliases = Some ''Build Version '')
   \<and> findCol [''Build Version''] [''Build'', ''Version''] = None"
proof -
  have "case findCol hdrs aliases of
      None \<Rightarrow> list_all (\<lambda>h. \<not> alias_eq aliases h) hdrs
    | Some h \<Rightarrow>
        (\<exists>i < length hdrs. hdrs ! i = h \<and> alias_eq aliases h
           \<and> (\<forall>k < i. \<not> alias_eq aliases (hdrs ! k)))"
  proof (cases "findCol hdrs aliases")
    case None
    then have "list_all (\<lambda>h. \<not> alias_eq aliases h) hdrs"
      by (simp add: findCol_find find_None_iff list_all_iff)
    then show ?thesis by (simp add: None)
  next
    case (Some h)
    then have "\<exists>i < length hdrs. hdrs ! i = h \<and> alias_eq aliases h
           \<and> (\<forall>k < i. \<not> alias_eq aliases (hdrs ! k))"
      by (auto simp: findCol_find find_Some_iff)
    then show ?thesis by (simp add: Some)
  qed
  moreover have "findCol [] aliases = None"
    by (simp add: findCol_def)
  moreover have "''build version'' \<in> set aliases \<longrightarrow>
      findCol [''Build Version ''] aliases = Some ''Build Version ''"
  proof
    assume a: "''build version'' \<in> set aliases"
    have "toLowerCase ''build version'' = toLowerCase (trim ''Build Version '')"
      by code_simp
    with a have "alias_eq aliases ''Build Version ''"
      unfolding alias_eq_def list_ex_iff by blast
    then show "findCol [''Build Version ''] aliases = Some ''Build Version ''"
      by (simp add: findCol_find)
  qed
  moreover have "findCol [''Build Version''] [''Build'', ''Version''] = None"
    by code_simp
  ultimately show ?thesis by blast
qed

theorem findCol_first_match_witness:
  "findCol [''Date'', '' build '', ''Build''] [''RC Build'', ''Build''] = Some '' build ''
   \<and> alias_eq [''RC Build'', ''Build''] '' build ''
   \<and> findCol [''Build Version ''] [''Build'', ''build version''] = Some ''Build Version ''"
proof -
  let ?hs = "[''Date'', '' build '', ''Build'']" and ?as = "[''RC Build'', ''Build'']"
  have f: "findCol ?hs ?as = Some '' build ''" by code_simp
  have m: "alias_eq ?as '' build ''"
    using findCol_first_match [where hdrs = ?hs and aliases = ?as] unfolding f by auto
  have "''build version'' \<in> set [''Build'', ''build version'']" by simp
  with findCol_first_match [where hdrs = "[''Build Version '']"
      and aliases = "[''Build'', ''build version'']"]
  have "findCol [''Build Version ''] [''Build'', ''build version''] = Some ''Build Version ''"
    by blast
  with f m show ?thesis by blast
qed

text \<open>
  C7. Value extraction is total: \<open>getVal\<close> never throws, returns 0 when the header
  is the not-found value or the record has no defined entry for it, returns 0 when
  the cell does not coerce to a number, and returns the cell coerced to a number
  otherwise.

  As stated this fails for the empty header name: the guard \<open>!header\<close> of the source
  holds for the empty string as it does for \<open>undefined\<close>. The table parsed from the
  two lines \<open>,Passed\<close> and \<open>5,1\<close> has an empty first header, and its row has the
  number 5 under it; \<open>getVal\<close> gives 0 for this row and this header, and not 5.
\<close>

theorem getVal_empty_header_counterexample:
  "headers (parseCSV ('',Passed'' @ [LF] @ ''5,1'')) = [[], ''Passed'']
   \<and> (rows (parseCSV ('',Passed'' @ [LF] @ ''5,1'')) ! 0) [] = Some (JNum (Fin 5))
   \<and> getVal (rows (parseCSV ('',Passed'' @ [LF] @ ''5,1'')) ! 0) (Some []) = Fin 0
   \<and> getVal_spec (rows (parseCSV ('',Passed'' @ [LF] @ ''5,1'')) ! 0) (Some []) = Fin 5"
proof -
  let ?t = "'',Passed'' @ [LF] @ ''5,1''"
  have n: "nonblank_lines ?t = ['',Passed'', ''5,1'']" by code_simp
  have h: "splitLine '',Passed'' = [[], ''Passed'']" by code_simp
  have d: "splitLine ''5,1'' = [''5'', ''1'']" by code_simp
  have 1: "headers (parseCSV ?t) = [[], ''Passed'']"
    using parseCSV_Cons [OF n] by (simp add: h)
  have 2: "(rows (parseCSV ?t) ! 0) [] = Some (JNum (Fin 5))"
    using parseCSV_cell [OF n, of 0 0] by (simp add: h d value_at_def stored_cell_def Number_of_digits)
  have 3: "getVal (rows (parseCSV ?t) ! 0) (Some []) = Fin 0"
    by (simp add: getVal_def)
  have 4: "getVal_spec (rows (parseCSV ?t) ! 0) (Some []) = Fin 5"
    using 2 by (simp add: getVal_spec_def)
  from 1 2 3 4 show ?thesis by blast
qed

text \<open>
  C7, amended: \<open>getVal\<close> never throws, returns 0 when the header is the not-found
  value or the empty string, or the record has no defined entry for it, returns 0
  when the cell does not coerce to a number, and returns the cell coerced to a number
  otherwise.
\<close>

theorem getVal_defaults:
  "getVal r None = Fin 0
   \<and> getVal r (Some []) = Fin 0
   \<and> (h \<noteq> [] \<longrightarrow> getVal r (Some h) = getVal_spec r (Some h))
   \<and> (h \<noteq> [] \<and> r h = None \<longrightarrow> getVal r (Some h) = Fin 0)
   \<and> (h \<noteq> [] \<and> r h = Some v \<and> isNaN (Number v) \<longrightarrow> getVal r (Some h) = Fin 0)
   \<and> (h \<noteq> [] \<and> r h = Some v \<and> \<not> isNaN (Number v) \<longrightarrow> getVal r (Some h) = Number v)"
proof -
  have n: "isNaN x \<longleftrightarrow> x = NaN" for x by (cases x) auto
  have u: "Number v = NaN" if "v = JUndefined" for v using that by simp
  show ?thesis
    by (auto simp: getVal_def getVal_spec_def n Let_def u split: option.splits)
qed

theorem getVal_defaults_witness:
  "getVal (Map.empty(''Passed'' \<mapsto> JNum (Fin 10))) (Some ''Passed'') = Fin 10
   \<and> getVal (Map.empty(''Passed'' \<mapsto> JStr ''n/a'')) (Some ''Passed'') = Fin 0
   \<and> getVal (Map.empty(''Passed'' \<mapsto> JNum (Fin 10))) (Some ''Failed'') = Fin 0
   \<and> getVal_spec (Map.empty(''Passed'' \<mapsto> JNum (Fin 10))) (Some ''Passed'') = Fin 10"
proof -
  let ?r = "Map.empty(''Passed'' \<mapsto> JNum (Fin 10))"
  let ?s = "Map.empty(''Passed'' \<mapsto> JStr ''n/a'')"
  have na: "StringToNumber ''n/a'' = NaN" by code_simp
  have "''Passed'' \<noteq> [] \<and> ?r ''Passed'' = Some (JNum (Fin 10)) \<and> \<not> isNaN (Number (JNum (Fin 10)))
      \<longrightarrow> getVal ?r (Some ''Passed'') = Number (JNum (Fin 10))"
    using getVal_defaults [where r = ?r and h = "''Passed''" and v = "JNum (Fin 10)"] by blast
  then have 1: "getVal ?r (Some ''Passed'') = Fin 10" by simp
  have "''Passed'' \<noteq> [] \<and> ?s ''Passed'' = Some (JStr ''n/a'') \<and> isNaN (Number (JStr ''n/a''))
      \<longrightarrow> getVal ?s (Some ''Passed'') = Fin 0"
    using getVal_defaults [where r = ?s and h = "''Passed''" and v = "JStr ''n/a''"] by blast
  then have 2: "getVal ?s (Some ''Passed'') = Fin 0" by (simp add: na)
  have "''Failed'' \<noteq> [] \<and> ?r ''Failed'' = None \<longrightarrow> getVal ?r (Some ''Failed'') = Fin 0"
    using getVal_defaults [where r = ?r and h = "''Failed''"] by blast
  then have 3: "getVal ?r (Some ''Failed'') = Fin 0" by simp
  have "''Passed'' \<noteq> [] \<longrightarrow> getVal ?r (Some ''Passed'') = getVal_spec ?r (Some ''Passed'')"
    using getVal_defaults [where r = ?r and h = "''Passed''"] by blast
  with 1 have 4: "getVal_spec ?r (Some ''Passed'') = Fin 10" by simp
  from 1 2 3 4 show ?thesis by blast
qed

text \<open>
  C8. For every input text and every row of the table parsed from it, the keys of the
  row are among the headers. The values are paired with the headers by position: the
  row holds, under the header at position \<open>j\<close>, the stored form of the field at
  position \<open>j\<close> of its line (when the same header name occurs again further right,
  that later position is the one found under the name); a data line with fewer fields
  than headers has the empty string at the missing positions; and the fields of a data
  line beyond the number of headers are discarded: two lines that agree on the first
  as many fields as there are headers give the same row.

  The keys are among the headers for every text, and the pairing holds for every
  header name but one. The exception is a column named \<open>__proto__\<close>: the assignment
  to that name stores nothing, so the table parsed from the two lines \<open>__proto__,B\<close>
  and \<open>5,2\<close> has the headers \<open>__proto__\<close> and \<open>B\<close> and the single row \<open>{B: 2}\<close>,
  in which the field \<open>5\<close> is paired with no header.
\<close>

theorem rows_keyed_by_headers:
  "(\<forall>r \<in> set (rows (parseCSV csvText)). dom r \<subseteq> set (headers (parseCSV csvText)))
   \<and> (nonblank_lines csvText = h # ds \<and> i < length ds \<and> j < length (splitLine h)
        \<and> splitLine h ! j \<notin> set (drop (Suc j) (splitLine h))
        \<and> splitLine h ! j \<noteq> ''__proto__'' \<longrightarrow>
        (rows (parseCSV csvText) ! i) (splitLine h ! j)
          = Some (stored_cell (if j < length (splitLine (ds ! i)) then splitLine (ds ! i) ! j else []))
        \<and> (length (splitLine (ds ! i)) \<le> j \<longrightarrow>
             (rows (parseCSV csvText) ! i) (splitLine h ! j) = Some (JStr [])))
   \<and> (nonblank_lines csvText = h # ds \<and> nonblank_lines csvText' = h # ds'
        \<and> i < length ds \<and> i < length ds'
        \<and> take (length (splitLine h)) (splitLine (ds ! i))
            = take (length (splitLine h)) (splitLine (ds' ! i)) \<longrightarrow>
        rows (parseCSV csvText) ! i = rows (parseCSV csvText') ! i)
   \<and> headers (parseCSV (''__proto__,B'' @ [LF] @ ''5,2'')) = [''__proto__'', ''B'']
   \<and> splitLine ''5,2'' = [''5'', ''2'']
   \<and> (rows (parseCSV (''__proto__,B'' @ [LF] @ ''5,2'')) ! 0) ''__proto__'' = None
   \<and> (rows (parseCSV (''__proto__,B'' @ [LF] @ ''5,2'')) ! 0) ''B'' = Some (JNum (Fin 2))"
proof -
  have "\<forall>r \<in> set (rows (parseCSV csvText)). dom r \<subseteq> set (headers (parseCSV csvText))"
  proof (cases "nonblank_lines csvText")
    case Nil
    then show ?thesis by (simp add: parseCSV_Nil)
  next
    case (Cons a list)
    then show ?thesis using dom_make_row by (auto simp: parseCSV_Cons)
  qed
  moreover have "nonblank_lines csvText = h # ds \<and> i < length ds \<and> j < length (splitLine h)
        \<and> splitLine h ! j \<notin> set (drop (Suc j) (splitLine h))
        \<and> splitLine h ! j \<noteq> ''__proto__'' \<longrightarrow>
        (rows (parseCSV csvText) ! i) (splitLine h ! j)
          = Some (stored_cell (if j < length (splitLine (ds ! i)) then splitLine (ds ! i) ! j else []))
        \<and> (length (splitLine (ds ! i)) \<le> j \<longrightarrow>
             (rows (parseCSV csvText) ! i) (splitLine h ! j) = Some (JStr []))"
    using parseCSV_cell [of csvText h ds i j]
    by (auto simp: value_at_def stored_cell_def)
  moreover have "nonblank_lines csvText = h # ds \<and> nonblank_lines csvText' = h # ds'
        \<and> i < length ds \<and> i < length ds'
        \<and> take (length (splitLine h)) (splitLine (ds ! i))
            = take (length (splitLine h)) (splitLine (ds' ! i)) \<longrightarrow>
        rows (parseCSV csvText) ! i = rows (parseCSV csvText') ! i"
    by (auto simp: parseCSV_Cons intro: make_row_cong)
  moreover have "splitLine ''5,2'' = [''5'', ''2'']" by code_simp
  moreover note proto_table
  ultimately show ?thesis by blast
qed

theorem rows_keyed_by_headers_witness:
  "dom (rows (parseCSV (''A,B,C'' @ [LF] @ ''x,y'')) ! 0) \<subseteq> {''A'', ''B'', ''C''}
   \<and> (rows (parseCSV (''A,B,C'' @ [LF] @ ''x,y'')) ! 0) ''B'' = Some (JStr ''y'')
   \<and> (rows (parseCSV (''A,B,C'' @ [LF] @ ''x,y'')) ! 0) ''C'' = Some (JStr [])
   \<and> rows (parseCSV (''A,B'' @ [LF] @ ''x,y,z,w'')) ! 0 = rows (parseCSV (''A,B'' @ [LF] @ ''x,y'')) ! 0"
proof -
  let ?t = "''A,B,C'' @ [LF] @ ''x,y''"
  have n: "nonblank_lines ?t = [''A,B,C'', ''x,y'']" by code_simp
  have h: "splitLine ''A,B,C'' = [''A'', ''B'', ''C'']" by code_simp
  have d: "splitLine ''x,y'' = [''x'', ''y'']" by code_simp
  have y: "stored_cell ''y'' = JStr ''y''" by code_simp
  have p: "parseCSV ?t = \<lparr>headers = [''A'', ''B'', ''C''], rows = [make_row [''A'', ''B'', ''C''] ''x,y'']\<rparr>"
    using parseCSV_Cons [OF n] by (simp add: h)
  note t = rows_keyed_by_headers [where csvText = ?t and h = "''A,B,C''" and ds = "[''x,y'']"
      and i = 0 and csvText' = ?t and ds' = "[''x,y'']"]
  have "dom (rows (parseCSV ?t) ! 0) \<subseteq> {''A'', ''B'', ''C''}"
    using t [where j = 0] unfolding p by simp
  moreover have "(rows (parseCSV ?t) ! 0) ''B'' = Some (JStr ''y'')"
    using t [where j = 1] unfolding n by (simp add: h d y)
  moreover have "(rows (parseCSV ?t) ! 0) ''C'' = Some (JStr [])"
    using t [where j = 2] unfolding n by (simp add: h d stored_cell_def)
  moreover have "rows (parseCSV (''A,B'' @ [LF] @ ''x,y,z,w'')) ! 0 = rows (parseCSV (''A,B'' @ [LF] @ ''x,y'')) ! 0"
  proof -
    let ?u = "''A,B'' @ [LF] @ ''x,y,z,w''" and ?u' = "''A,B'' @ [LF] @ ''x,y''"
    have 1: "nonblank_lines ?u = [''A,B'', ''x,y,z,w'']" by code_simp
    have 2: "nonblank_lines ?u' = [''A,B'', ''x,y'']" by code_simp
    have 3: "splitLine ''A,B'' = [''A'', ''B'']" by code_simp
    have 4: "splitLine ''x,y,z,w'' = [''x'', ''y'', ''z'', ''w'']" by code_simp
    show ?thesis
      using rows_keyed_by_headers [where csvText = ?u and h = "''A,B''" and ds = "[''x,y,z,w'']"
          and i = 0 and j = 0 and csvText' = ?u' and ds' = "[''x,y'']"]
      unfolding 1 2 by (simp add: 3 4 d)
  qed
  ultimately show ?thesis by blast
qed

text \<open>
  C9. In the prefix clean-up of the comparator the alternation
  \<open>(rc|build|v|ver|version)\<close> takes the single letter \<open>v\<close> before the longer
  alternatives \<open>ver\<close> and \<open>version\<close>: of a string that begins with \<open>ver\<close> or
  \<open>version\<close> (in any case) only the first letter is removed, and no separator
  follows it. So \<open>clean("Version 1.0")\<close> is \<open>ersion 1.0\<close> and
  \<open>smartCompare("Version 1.0", "1.0")\<close> is false.
\<close>

theorem clean_takes_v_before_ver:
  "(matches_ci ''ver'' s \<longrightarrow> strip_prefix s = tl s \<and> clean s = trim (tl s))
   \<and> matches_ci ''version'' ''Version 1.0''
   \<and> clean ''Version 1.0'' = ''ersion 1.0''
   \<and> smartCompare numToString (JStr ''Version 1.0'') (JStr ''1.0'') = False"
proof -
  have "matches_ci ''ver'' s \<longrightarrow> strip_prefix s = tl s \<and> clean s = trim (tl s)"
    by (simp add: clean_def strip_prefix_ver)
  moreover have "matches_ci ''version'' ''Version 1.0''" by code_simp
  moreover have "clean ''Version 1.0'' = ''ersion 1.0''" by code_simp
  moreover have "smartCompare numToString (JStr ''Version 1.0'') (JStr ''1.0'') = False"
    by code_simp
  ultimately show ?thesis by blast
qed

theorem clean_takes_v_before_ver_witness:
  "matches_ci ''ver'' ''VER-2'' \<and> strip_prefix ''VER-2'' = ''ER-2'' \<and> clean ''VER-2'' = ''ER-2''"
proof -
  have m: "matches_ci ''ver'' ''VER-2''" by code_simp
  have t: "trim ''ER-2'' = ''ER-2''" by code_simp
  from m clean_takes_v_before_ver [where s = "''VER-2''"]
  have "strip_prefix ''VER-2'' = tl ''VER-2'' \<and> clean ''VER-2'' = trim (tl ''VER-2'')" by blast
  with m t show ?thesis by simp
qed

text \<open>
  C10. When an argument of \<open>smartCompare\<close> is falsy, the number 0 in particular,
  which \<open>parseCSV\<close> stores for a cell \<open>0\<close>, \<open>String(a || '')\<close> is the empty string,
  whatever the text of the number would be, and the empty guard returns false:
  \<open>smartCompare(0, "0")\<close> and \<open>smartCompare(0, 0)\<close> are both false.
\<close>

theorem smartCompare_zero_is_blank:
  "String_or_empty numToString (JNum (Fin 0)) = []
   \<and> (\<not> truthy a \<longrightarrow> smartCompare numToString a b = False \<and> smartCompare numToString b a = False)
   \<and> smartCompare numToString (JNum (Fin 0)) (JStr ''0'') = False
   \<and> smartCompare numToString (JNum (Fin 0)) (JNum (Fin 0)) = False
   \<and> coerce ''0'' = JNum (Fin 0)
   \<and> (rows (parseCSV (''Build'' @ [LF] @ ''0'')) ! 0) ''Build'' = Some (JNum (Fin 0))"
proof -
  have z: "stored_cell ''0'' = JNum (Fin 0)"
    by (simp add: stored_cell_def Number_of_digits)
  then have "coerce ''0'' = JNum (Fin 0)"
    by (simp add: coerce_stored_cell dquote_def)
  moreover have "(rows (parseCSV (''Build'' @ [LF] @ ''0'')) ! 0) ''Build'' = Some (JNum (Fin 0))"
  proof -
    have n: "nonblank_lines (''Build'' @ [LF] @ ''0'') = [''Build'', ''0'']" by code_simp
    have h: "splitLine ''Build'' = [''Build'']" by code_simp
    have d: "splitLine ''0'' = [''0'']" by code_simp
    show ?thesis
      using parseCSV_cell [OF n, of 0 0] by (simp add: h d value_at_def z)
  qed
  ultimately show ?thesis
    by (simp add: smartCompare_def String_or_empty_def)
qed

theorem smartCompare_zero_is_blank_witness:
  "\<not> truthy (JStr []) \<and> smartCompare (\<lambda>n. []) (JStr []) (JStr ''1.0'') = False
   \<and> smartCompare (\<lambda>n. []) (JStr ''1.0'') (JStr []) = False"
  using smartCompare_zero_is_blank [where numToString = "\<lambda>n. []" and a = "JStr []" and b = "JStr ''1.0''"]
  by simp

end
